theory Spec2Isabelle
  imports Complex_Main
begin

section \<open>JavaScript values used by the engine\<close>

text \<open>
  A URL held by the engine is a string or \<open>null\<close>: \<open>normalizeUrl\<close> returns \<open>null\<close> for
  an input the platform's URL parser rejects, and \<open>processSSRHints\<close> stores that result
  in a queue item unchecked.
\<close>

type_synonym jsurl = "string option"

text \<open>
  A JavaScript number that the engine computes from a header: an integer, or \<open>NaN\<close> when
  \<open>parseInt\<close> finds no digits. (Byte counts and millisecond clocks are integers; they are
  far below the range where a double stops being exact.)
\<close>

datatype number = Num int | NaN

fun num_add :: "number \<Rightarrow> number \<Rightarrow> number" where
  "num_add (Num a) (Num b) = Num (a + b)"
| "num_add _ _ = NaN"

text \<open>\<open>a >= b\<close> on numbers: every comparison with \<open>NaN\<close> is false.\<close>

fun num_ge :: "number \<Rightarrow> int \<Rightarrow> bool" where
  "num_ge (Num a) b = (b \<le> a)"
| "num_ge NaN b = False"

subsection \<open>Decimal strings: \<open>Number.prototype.toString\<close> and \<open>parseInt(s, 10)\<close>\<close>

definition digit_char :: "nat \<Rightarrow> char" where
  "digit_char d = ''0123456789'' ! d"

definition is_digit :: "char \<Rightarrow> bool" where
  "is_digit c = (c \<in> set ''0123456789'')"

definition digit_val :: "char \<Rightarrow> nat" where
  "digit_val c = of_char c - of_char (CHR ''0'')"

function show_nat :: "nat \<Rightarrow> string" where
  "show_nat n = (if n < 10 then [digit_char n] else show_nat (n div 10) @ [digit_char (n mod 10)])"
  by pat_completeness auto
termination
  by (relation "measure id") auto

declare show_nat.simps [simp del]

text \<open>The decimal representation of an integer, as \<open>toString\<close> and string conversion give it.\<close>

definition show_int :: "int \<Rightarrow> string" where
  "show_int i = (if i < 0 then CHR ''-'' # show_nat (nat (- i)) else show_nat (nat i))"

definition is_space :: "char \<Rightarrow> bool" where
  "is_space c = (c \<in> set [CHR '' '', CHR 0x09, CHR 0x0A, CHR 0x0B, CHR 0x0C, CHR 0x0D])"

definition digits_val :: "string \<Rightarrow> nat" where
  "digits_val ds = foldl (\<lambda>a c. 10 * a + digit_val c) 0 ds"

text \<open>
  \<open>parseInt(s, 10)\<close>: leading white space is skipped, one sign is read, then the longest
  run of decimal digits; no digit gives \<open>NaN\<close>, and what follows the digits is ignored.
\<close>

definition parseInt :: "string \<Rightarrow> number" where
  "parseInt str =
     (let s = dropWhile is_space str;
          neg = (s \<noteq> [] \<and> hd s = CHR ''-'');
          r = (if s \<noteq> [] \<and> (hd s = CHR ''-'' \<or> hd s = CHR ''+'') then tl s else s);
          ds = takeWhile is_digit r
      in if ds = [] then NaN
         else Num ((if neg then - 1 else 1) * int (digits_val ds)))"

text \<open>A string is truthy when it is neither absent nor empty.\<close>

fun truthy_str :: "string option \<Rightarrow> bool" where
  "truthy_str None = False"
| "truthy_str (Some s) = (s \<noteq> [])"

text \<open>\<open>x || d\<close> for an optional number: \<open>undefined\<close>, \<open>0\<close> and \<open>NaN\<close> give \<open>d\<close>.\<close>

fun num_or :: "number option \<Rightarrow> int \<Rightarrow> int" where
  "num_or (Some (Num n)) d = (if n = 0 then d else n)"
| "num_or _ d = d"

fun str_or :: "string option \<Rightarrow> string \<Rightarrow> string" where
  "str_or (Some s) d = (if s = [] then d else s)"
| "str_or None d = d"

section \<open>The data model\<close>

text \<open>
  The configuration: the fields of \<open>this.config\<close> that the modelled methods read. An
  exclusion pattern is a regular expression in the source; here it is the predicate
  \<open>pattern.test\<close> it decides.
\<close>

record config =
  cacheMode :: string
  maxConcurrent :: int
  betweenDelay :: int
  excludeSelectors :: "string list"
  excludePatterns :: "(string \<Rightarrow> bool) list"
  connectionAware :: bool
  dataLimit :: int
  bandwidthThrottle :: bool
  cacheMaxSize :: int
  cacheExpiration :: int
  cacheVersion :: string
  crossTabCache :: bool
  ssrHints :: bool

text \<open>
  A link of the document, with what the engine asks of it: its \<open>href\<close>, the selectors
  for which \<open>element.matches\<close> answers true, and the top and bottom of its bounding
  rectangle.
\<close>

record anchor =
  href :: string
  matches :: "string list"
  rect_top :: int
  rect_bottom :: int

record queue_item =
  url :: jsurl
  element :: "anchor option"
  priority :: int
  timestamp :: int
  source :: "string option"

text \<open>The record that the in-memory cache (a \<open>Map\<close>) holds for a URL.\<close>

record cache_entry =
  c_url :: jsurl
  content :: string
  c_timestamp :: int
  version :: string
  c_size :: int

text \<open>
  A response: of the network, of the platform's cache store, or the mock that
  \<open>getCachedResponse\<close> builds for the in-memory cache. Header names are lower case,
  as \<open>Headers\<close> keeps them. \<open>body\<close> is \<open>None\<close> when reading the text of the response
  fails.
\<close>

record response =
  ok :: bool
  status :: int
  headers :: "(string \<times> string) list"
  body :: "string option"

record metadata =
  md_timestamp :: "number option"
  md_version :: "string option"
  md_size :: "number option"

record stats =
  totalRequests :: int
  cacheHits :: int
  cacheMisses :: int
  bytesTransferred :: number
  averageResponseTime :: rat
  connectionType :: string

text \<open>\<open>navigator.connection\<close>: a live object, which the platform updates.\<close>

record connection =
  effectiveType :: string
  downlink :: int
  saveData :: bool

text \<open>A message posted on the broadcast channel.\<close>

datatype message = CacheUpdateMsg jsurl string int | CacheClearMsg int

text \<open>
  The engine. The first group of fields are those of the \<open>Ghostloader\<close> object. The
  in-memory cache is a \<open>Map\<close>, whose entries keep their insertion order, so it is an
  association list; \<open>cacheAPI\<close> is the platform's cache store when there is one, a list
  of entries in insertion order too (the order in which \<open>keys()\<close> lists them).

  The second group is what the event loop holds for the engine: \<open>delayed\<close>, the
  \<open>processQueue\<close> calls suspended in \<open>await this.delay(betweenDelay)\<close>, each with the
  item it has dequeued; \<open>inflight\<close>, the \<open>fetchAndCache\<close> calls that have not settled;
  \<open>timers\<close>, the number of pending \<open>setTimeout(() => this.processQueue(), 10)\<close>;
  \<open>requests\<close>, the URLs handed to \<open>fetch\<close>, in order; \<open>outbox\<close>, the messages posted
  to the other tabs.
\<close>

record engine =
  config :: config
  queue :: "queue_item list"
  processing :: "jsurl set"
  processed :: "jsurl set"
  cache :: "(jsurl \<times> cache_entry) list"
  cacheAPI :: "(jsurl \<times> response) list option"
  isInitialized :: bool
  activeRequests :: int
  isPaused :: bool
  dataUsed :: number
  sessionStart :: int
  connectionInfo :: "connection option"
  bandwidthEstimate :: "int option"
  ssrHintsReceived :: "string set"
  stats :: stats
  broadcastChannel :: bool
  delayed :: "queue_item list"
  inflight :: "queue_item list"
  timers :: nat
  requests :: "jsurl list"
  outbox :: "message list"

text \<open>
  The constructor, followed by \<open>configure\<close>: the state of a new engine whose merged
  configuration is \<open>cfg\<close>, created at clock reading \<open>now\<close>. (\<open>isPaused\<close> is not set by the
  constructor; it is \<open>undefined\<close>, which is falsy.)
\<close>

definition new_engine :: "config \<Rightarrow> int \<Rightarrow> engine" where
  "new_engine cfg now =
     \<lparr> config = cfg, queue = [], processing = {}, processed = {}, cache = [],
       cacheAPI = None, isInitialized = False, activeRequests = 0, isPaused = False,
       dataUsed = Num 0, sessionStart = now, connectionInfo = None,
       bandwidthEstimate = None, ssrHintsReceived = {},
       stats = \<lparr> totalRequests = 0, cacheHits = 0, cacheMisses = 0,
                 bytesTransferred = Num 0, averageResponseTime = 0,
                 connectionType = ''unknown'' \<rparr>,
       broadcastChannel = False, delayed = [], inflight = [], timers = 0,
       requests = [], outbox = [] \<rparr>"

section \<open>The platform\<close>

text \<open>
  The \<open>URL\<close> class of the platform, as far as the engine uses it. It is not code of the
  library, so it is a parameter: \<open>url_parse s base\<close> is \<open>new URL(s, base)\<close> (\<open>None\<close> when
  it throws, \<open>base = None\<close> when the call gives no base), \<open>url_set_hash\<close> the setter of
  \<open>hash\<close>, and \<open>url_hash\<close>, \<open>url_href\<close>, \<open>url_origin\<close> the getters.
\<close>

record 'u url_api =
  url_parse :: "string \<Rightarrow> string option \<Rightarrow> 'u option"
  url_set_hash :: "'u \<Rightarrow> string \<Rightarrow> 'u"
  url_hash :: "'u \<Rightarrow> string"
  url_href :: "'u \<Rightarrow> string"
  url_origin :: "'u \<Rightarrow> string"

record meta_hint =
  hint_content :: "string option"
  data_priority :: "string option"

record json_hint =
  hint_url :: "string option"
  hint_priority :: "int option"

text \<open>
  What the engine reads of the document and the window during one synchronous piece of
  code: the location, the viewport height, the elements that match the configured
  selector (in document order), the hint meta tags, and for every JSON-LD script the
  array \<open>ghostloaderHints\<close> (\<open>None\<close> when the script does not parse or has no such
  array). \<open>clock\<close> is the reading of \<open>Date.now()\<close>.
\<close>

record page =
  location_href :: string
  location_origin :: string
  innerHeight :: int
  links :: "anchor list"
  meta_hints :: "meta_hint list"
  json_ld :: "json_hint list option list"
  clock :: int

section \<open>URL normalisation and filters\<close>

text \<open>\<open>normalizeUrl(url)\<close>: parse against the location, empty the hash, serialise.\<close>

definition normalizeUrl :: "'u url_api \<Rightarrow> string \<Rightarrow> string \<Rightarrow> jsurl" where
  "normalizeUrl api loc u =
     (case url_parse api u (Some loc) of
        None \<Rightarrow> None
      | Some urlObj \<Rightarrow> Some (url_href api (url_set_hash api urlObj [])))"

text \<open>\<open>shouldPreload(url)\<close>; a URL that does not parse is not preloaded.\<close>

definition shouldPreload :: "'u url_api \<Rightarrow> config \<Rightarrow> string \<Rightarrow> string \<Rightarrow> bool" where
  "shouldPreload api cfg origin u =
     (case url_parse api u None of
        None \<Rightarrow> False
      | Some urlObj \<Rightarrow>
          if cacheMode cfg = ''local'' then url_origin api urlObj = origin else True)"

text \<open>\<open>shouldExclude(element, url)\<close>: the selector loop, then the pattern loop.\<close>

definition shouldExclude :: "config \<Rightarrow> anchor \<Rightarrow> string \<Rightarrow> bool" where
  "shouldExclude cfg el u =
     (if list_ex (\<lambda>sel. sel \<in> set (matches el)) (excludeSelectors cfg) then True
      else if list_ex (\<lambda>pattern. pattern u) (excludePatterns cfg) then True
      else False)"

section \<open>Connection monitor\<close>

definition withinDataLimits :: "engine \<Rightarrow> bool" where
  "withinDataLimits s =
     (if (case connectionInfo s of None \<Rightarrow> False | Some c \<Rightarrow> saveData c) then False
      else if num_ge (dataUsed s) (dataLimit (config s)) then False
      else True)"

text \<open>
  \<open>getEffectiveMaxConcurrent()\<close>. The table is read at the live \<open>effectiveType\<close>; a type
  that is not in the table, or an entry that is \<open>0\<close>, gives \<open>maxConcurrent\<close>.
\<close>

definition connectionLimits :: "config \<Rightarrow> (string \<times> int) list" where
  "connectionLimits cfg =
     [(''slow-2g'', 1), (''2g'', 1), (''3g'', 2),
      (''4g'', maxConcurrent cfg), (''5g'', maxConcurrent cfg)]"

definition getEffectiveMaxConcurrent :: "engine \<Rightarrow> int" where
  "getEffectiveMaxConcurrent s =
     (case connectionInfo s of
        None \<Rightarrow> maxConcurrent (config s)
      | Some c \<Rightarrow>
          if \<not> bandwidthThrottle (config s) then maxConcurrent (config s)
          else (case map_of (connectionLimits (config s)) (effectiveType c) of
                  None \<Rightarrow> maxConcurrent (config s)
                | Some n \<Rightarrow> if n = 0 then maxConcurrent (config s) else n))"

section \<open>Priority queue builder\<close>

text \<open>
  The body of the \<open>forEach\<close> of \<open>buildQueue\<close> for one link: the item it pushes on
  \<open>linkData\<close>, or nothing when one of its checks returns early. The checks stand in the
  order of the source.
\<close>

definition link_item :: "'u url_api \<Rightarrow> engine \<Rightarrow> page \<Rightarrow> anchor \<Rightarrow> queue_item list" where
  "link_item api s pg link =
     (case normalizeUrl api (location_href pg) (href link) of
        None \<Rightarrow> []
      | Some h \<Rightarrow>
          if h = [] \<or> Some h \<in> processed s \<or> Some h \<in> processing s then []
          else if shouldExclude (config s) link h then []
          else if \<not> shouldPreload api (config s) (location_origin pg) h then []
          else if connectionAware (config s) \<and> \<not> withinDataLimits s then []
          else if rect_top link < innerHeight pg \<and> rect_bottom link > 0
               then [\<lparr> url = Some h, element = Some link, priority = rect_top link,
                       timestamp = clock pg, source = None \<rparr>]
               else [])"

text \<open>
  \<open>buildQueue()\<close>: the items of the links in document order, sorted by priority (the
  sort of an array is stable), become the queue.
\<close>

definition buildQueue :: "'u url_api \<Rightarrow> engine \<Rightarrow> page \<Rightarrow> engine" where
  "buildQueue api s pg =
     s\<lparr> queue := sort_key priority (concat (map (link_item api s pg) (links pg))) \<rparr>"

section \<open>SSR hint ingestor\<close>

definition meta_step :: "'u url_api \<Rightarrow> page \<Rightarrow> engine \<Rightarrow> meta_hint \<Rightarrow> engine" where
  "meta_step api pg s m =
     (case hint_content m of
        None \<Rightarrow> s
      | Some u \<Rightarrow>
          if u \<noteq> [] \<and> u \<notin> ssrHintsReceived s then
            (let s1 = s\<lparr> ssrHintsReceived := insert u (ssrHintsReceived s) \<rparr> in
             if str_or (data_priority m) ''normal'' = ''high'' then
               s1\<lparr> queue := \<lparr> url = normalizeUrl api (location_href pg) u, element = None,
                              priority = - 1000, timestamp = clock pg,
                              source = Some ''ssr-hint'' \<rparr> # queue s1 \<rparr>
             else s1)
          else s)"

definition json_step :: "'u url_api \<Rightarrow> page \<Rightarrow> engine \<Rightarrow> json_hint \<Rightarrow> engine" where
  "json_step api pg s h =
     (case hint_url h of
        None \<Rightarrow> s
      | Some u \<Rightarrow>
          if u \<noteq> [] \<and> u \<notin> ssrHintsReceived s then
            s\<lparr> ssrHintsReceived := insert u (ssrHintsReceived s),
               queue := \<lparr> url = normalizeUrl api (location_href pg) u, element = None,
                          priority = (case hint_priority h of None \<Rightarrow> 0 | Some p \<Rightarrow> p),
                          timestamp = clock pg, source = Some ''ssr-hint-json'' \<rparr> # queue s \<rparr>
          else s)"

definition script_step :: "'u url_api \<Rightarrow> page \<Rightarrow> engine \<Rightarrow> json_hint list option \<Rightarrow> engine" where
  "script_step api pg s sc =
     (case sc of None \<Rightarrow> s | Some hints \<Rightarrow> foldl (json_step api pg) s hints)"

text \<open>\<open>processSSRHints()\<close>: the meta tags first, then the JSON-LD scripts.\<close>

definition processSSRHints :: "'u url_api \<Rightarrow> engine \<Rightarrow> page \<Rightarrow> engine" where
  "processSSRHints api s pg =
     foldl (script_step api pg) (foldl (meta_step api pg) s (meta_hints pg)) (json_ld pg)"

section \<open>Cache manager\<close>

text \<open>\<open>Map.prototype.set\<close>: an existing key keeps its place, a new one goes last.\<close>

definition map_set :: "'k \<Rightarrow> 'v \<Rightarrow> ('k \<times> 'v) list \<Rightarrow> ('k \<times> 'v) list" where
  "map_set k v m =
     (if k \<in> fst ` set m then map (\<lambda>e. if fst e = k then (k, v) else e) m
      else m @ [(k, v)])"

text \<open>\<open>delete\<close>, for the \<open>Map\<close> and for the platform's store.\<close>

definition map_delete :: "'k \<Rightarrow> ('k \<times> 'v) list \<Rightarrow> ('k \<times> 'v) list" where
  "map_delete k m = filter (\<lambda>e. fst e \<noteq> k) m"

text \<open>\<open>Cache.put\<close>: the entry of the same key is dropped, the new one is appended.\<close>

definition store_put :: "'k \<Rightarrow> 'v \<Rightarrow> ('k \<times> 'v) list \<Rightarrow> ('k \<times> 'v) list" where
  "store_put k v m = map_delete k m @ [(k, v)]"

text \<open>\<open>xs.slice(0, e)\<close>: a negative end counts from the end of the array.\<close>

definition slice0 :: "'a list \<Rightarrow> int \<Rightarrow> 'a list" where
  "slice0 xs e =
     take (nat (if e < 0 then max (int (length xs) + e) 0 else min e (int (length xs)))) xs"

text \<open>
  \<open>getCachedResponse(url)\<close>: the platform's store when there is one, else the mock
  response built from the record of the in-memory cache.
\<close>

definition getCachedResponse :: "engine \<Rightarrow> jsurl \<Rightarrow> response option" where
  "getCachedResponse s u =
     (case cacheAPI s of
        Some store \<Rightarrow> map_of store u
      | None \<Rightarrow>
          (case map_of (cache s) u of
             None \<Rightarrow> None
           | Some cached \<Rightarrow>
               Some \<lparr> ok = True, status = 200,
                      headers = [(''x-cached-timestamp'', show_int (c_timestamp cached))],
                      body = Some (content cached) \<rparr>))"

text \<open>\<open>a || b\<close> on two header reads.\<close>

definition hdr_or :: "string option \<Rightarrow> string option \<Rightarrow> string option" where
  "hdr_or a b = (if truthy_str a then a else b)"

text \<open>\<open>isCacheExpired(response)\<close> at clock reading \<open>now\<close>.\<close>

definition isCacheExpired :: "config \<Rightarrow> int \<Rightarrow> response \<Rightarrow> bool" where
  "isCacheExpired cfg now r =
     (case hdr_or (map_of (headers r) ''x-cached-timestamp'')
                  (map_of (headers r) ''x-ghostloader-timestamp'') of
        None \<Rightarrow> False
      | Some t \<Rightarrow>
          if t = [] then False
          else (case parseInt t of
                  NaN \<Rightarrow> False
                | Num p \<Rightarrow> now - p > cacheExpiration cfg))"

text \<open>
  \<open>enforceCacheLimit()\<close>. The platform's store is cut in the order of its keys; the
  in-memory cache in the order of the timestamps of its entries.
\<close>

definition enforceCacheLimit :: "engine \<Rightarrow> engine" where
  "enforceCacheLimit s =
     (case cacheAPI s of
        Some store \<Rightarrow>
          (let keys = map fst store in
           if int (length keys) \<ge> cacheMaxSize (config s) then
             (let toRemove = slice0 keys (int (length keys) - cacheMaxSize (config s) + 10)
              in s\<lparr> cacheAPI := Some (foldl (\<lambda>st k. map_delete k st) store toRemove) \<rparr>)
           else s)
      | None \<Rightarrow>
          if int (length (cache s)) \<ge> cacheMaxSize (config s) then
            (let entries = sort_key (\<lambda>e. c_timestamp (snd e)) (cache s);
                 toRemove = slice0 entries (int (length entries) - cacheMaxSize (config s) + 10)
             in s\<lparr> cache := foldl (\<lambda>c e. map_delete (fst e) c) (cache s) toRemove \<rparr>)
          else s)"

text \<open>The headers of the response that \<open>storeInCache\<close> hands to the platform's store.\<close>

definition tagged_headers :: "config \<Rightarrow> metadata \<Rightarrow> int \<Rightarrow> response \<Rightarrow> (string \<times> string) list" where
  "tagged_headers cfg md now r =
     filter (\<lambda>h. fst h \<notin> {''x-ghostloader-timestamp'', ''x-ghostloader-version'',
                            ''x-ghostloader-size''}) (headers r)
     @ [(''x-ghostloader-timestamp'', show_int (num_or (md_timestamp md) now)),
        (''x-ghostloader-version'', str_or (md_version md) (cacheVersion cfg)),
        (''x-ghostloader-size'', show_int (num_or (md_size md) 0))]"

text \<open>
  \<open>storeInCache(url, response, metadata)\<close>, the second method of that name in the class
  (it replaces the first). \<open>now\<close> is the reading of \<open>Date.now()\<close>. A response whose text
  cannot be read leaves the in-memory cache as the eviction left it: the \<open>catch\<close> only
  logs.
\<close>

definition storeInCache :: "engine \<Rightarrow> jsurl \<Rightarrow> response \<Rightarrow> metadata \<Rightarrow> int \<Rightarrow> engine" where
  "storeInCache s u r md now =
     (let s1 = enforceCacheLimit s in
      case cacheAPI s1 of
        Some store \<Rightarrow>
          s1\<lparr> cacheAPI :=
                Some (store_put u (r\<lparr> headers := tagged_headers (config s1) md now r \<rparr>) store) \<rparr>
      | None \<Rightarrow>
          (case body r of
             None \<Rightarrow> s1
           | Some text \<Rightarrow>
               s1\<lparr> cache :=
                     map_set u \<lparr> c_url = u, content = text,
                                 c_timestamp = num_or (md_timestamp md) now,
                                 version = str_or (md_version md) (cacheVersion (config s1)),
                                 c_size = num_or (md_size md) (int (length text)) \<rparr>
                       (cache s1) \<rparr>))"

text \<open>
  The statements of \<open>storeInCache\<close> after \<open>await this.enforceCacheLimit()\<close>: the insertion
  alone. The method awaits between its eviction pass and its insertion (and, on the
  in-memory backend, once more for \<open>response.text()\<close> before \<open>cache.set\<close>), and
  \<open>processQueue\<close> does not await \<open>fetchAndCache\<close>, so the calls of several requests in flight
  can take turns there. \<open>storeInCache\<close> above is the eviction pass followed at once by the
  insertion.
\<close>

definition storeInCache_insert :: "engine \<Rightarrow> jsurl \<Rightarrow> response \<Rightarrow> metadata \<Rightarrow> int \<Rightarrow> engine" where
  "storeInCache_insert s1 u r md now =
     (case cacheAPI s1 of
        Some store \<Rightarrow>
          s1\<lparr> cacheAPI :=
                Some (store_put u (r\<lparr> headers := tagged_headers (config s1) md now r \<rparr>) store) \<rparr>
      | None \<Rightarrow>
          (case body r of
             None \<Rightarrow> s1
           | Some bd \<Rightarrow>
               s1\<lparr> cache :=
                     map_set u \<lparr> c_url = u, content = bd,
                                 c_timestamp = num_or (md_timestamp md) now,
                                 version = str_or (md_version md) (cacheVersion (config s1)),
                                 c_size = num_or (md_size md) (int (length bd)) \<rparr>
                       (cache s1) \<rparr>))"

text \<open>The insertions of several calls, one after the other, each with its arguments.\<close>

definition insertions :: "engine \<Rightarrow> (jsurl \<times> response \<times> metadata \<times> int) list \<Rightarrow> engine" where
  "insertions s ws = foldl (\<lambda>x (u, r, md, now). storeInCache_insert x u r md now) s ws"

definition invalidateCache :: "engine \<Rightarrow> jsurl \<Rightarrow> engine" where
  "invalidateCache s u =
     (case cacheAPI s of
        Some store \<Rightarrow> s\<lparr> cacheAPI := Some (map_delete u store) \<rparr>
      | None \<Rightarrow> s\<lparr> cache := map_delete u (cache s) \<rparr>)"

text \<open>The number of entries of the backend in use.\<close>

definition backend_count :: "engine \<Rightarrow> nat" where
  "backend_count s = (case cacheAPI s of Some store \<Rightarrow> length store | None \<Rightarrow> length (cache s))"

section \<open>Fetching one item\<close>

text \<open>
  The outcome of \<open>await fetch(url, fetchOptions)\<close>: a response, the abort of the
  request by its timeout, or another network error.
\<close>

datatype net_result = Responded response | Aborted | NetError

text \<open>
  What one call of \<open>fetchAndCache\<close> takes from outside: the outcome of the network
  request, should it make one, and the readings of \<open>Date.now()\<close> in the order of the
  calls (\<open>startTime\<close>, in \<open>isCacheExpired\<close>, for the metadata, in \<open>storeInCache\<close>, in
  \<open>broadcastCacheUpdate\<close>, for the response time).
\<close>

record fetch_env =
  net :: net_result
  t_start :: int
  t_check :: int
  t_store :: int
  t_put :: int
  t_post :: int
  t_end :: int

definition broadcastCacheUpdate :: "engine \<Rightarrow> jsurl \<Rightarrow> string \<Rightarrow> int \<Rightarrow> engine" where
  "broadcastCacheUpdate s u action now =
     (if broadcastChannel s then s\<lparr> outbox := outbox s @ [CacheUpdateMsg u action now] \<rparr>
      else s)"

text \<open>The branch \<open>if (response.ok)\<close> of \<open>fetchAndCache\<close>.\<close>

definition on_ok_response :: "engine \<Rightarrow> jsurl \<Rightarrow> response \<Rightarrow> fetch_env \<Rightarrow> engine" where
  "on_ok_response s u r env =
     (let contentLength = map_of (headers r) ''content-length'';
          len = (case contentLength of
                   None \<Rightarrow> Num 0
                 | Some v \<Rightarrow> if v = [] then Num 0 else parseInt v);
          s1 = (if truthy_str contentLength
                then s\<lparr> dataUsed := num_add (dataUsed s) len \<rparr> else s);
          s2 = storeInCache s1 u r
                 \<lparr> md_timestamp = Some (Num (t_store env)),
                   md_version = Some (cacheVersion (config s1)),
                   md_size = Some len \<rparr> (t_put env);
          s3 = s2\<lparr> stats := (stats s2)\<lparr> cacheMisses := cacheMisses (stats s2) + 1,
                                        bytesTransferred :=
                                          num_add (bytesTransferred (stats s2)) len \<rparr> \<rparr>
      in broadcastCacheUpdate s3 u ''cached'' (t_post env))"

text \<open>
  \<open>fetchAndCache(item)\<close>, run from its first statement to its last. A fresh cached
  response ends the call before any request; after a response (successful or not) the
  average response time is updated; an abort or a network error lands in the \<open>catch\<close>,
  which only logs.
\<close>

definition fetchAndCache :: "engine \<Rightarrow> queue_item \<Rightarrow> fetch_env \<Rightarrow> engine" where
  "fetchAndCache s item env =
     (let s1 = s\<lparr> stats := (stats s)\<lparr> totalRequests := totalRequests (stats s) + 1 \<rparr> \<rparr>;
          cachedResponse = getCachedResponse s1 (url item);
          hit = (case cachedResponse of
                   None \<Rightarrow> False
                 | Some c \<Rightarrow> \<not> isCacheExpired (config s1) (t_check env) c)
      in if hit then s1\<lparr> stats := (stats s1)\<lparr> cacheHits := cacheHits (stats s1) + 1 \<rparr> \<rparr>
         else
           (let s2 = s1\<lparr> requests := requests s1 @ [url item] \<rparr> in
            case net env of
              Aborted \<Rightarrow> s2
            | NetError \<Rightarrow> s2
            | Responded r \<Rightarrow>
                (let s3 = (if ok r then on_ok_response s2 (url item) r env else s2);
                     n = totalRequests (stats s3);
                     responseTime = t_end env - t_start env
                 in s3\<lparr> stats := (stats s3)\<lparr> averageResponseTime :=
                           (averageResponseTime (stats s3) * of_int (n - 1)
                              + of_int responseTime) / of_int n \<rparr> \<rparr>)))"

section \<open>Concurrency-limited scheduler\<close>

text \<open>
  \<open>processQueue()\<close>, from the head of its loop to the point where the call returns or
  is suspended. An item that passes the checks is marked as processing and counted;
  then either the call waits for the inter-item delay (the item joins \<open>delayed\<close>, and
  the loop goes on when the delay has elapsed), or \<open>fetchAndCache(item)\<close> is called
  (the item joins \<open>inflight\<close>) and the loop goes on at once.
\<close>

function processQueue :: "engine \<Rightarrow> engine" where
  "processQueue s =
     (case queue s of
        [] \<Rightarrow> s
      | item # rest \<Rightarrow>
          if activeRequests s < getEffectiveMaxConcurrent s then
            (let s1 = s\<lparr> queue := rest \<rparr> in
             if url item \<in> processing s1 \<or> url item \<in> processed s1 then processQueue s1
             else if connectionAware (config s1) \<and> \<not> withinDataLimits s1 then s1
             else
               (let s2 = s1\<lparr> processing := insert (url item) (processing s1),
                              activeRequests := activeRequests s1 + 1 \<rparr> in
                if betweenDelay (config s2) > 0 \<and> activeRequests s2 > 1
                then s2\<lparr> delayed := delayed s2 @ [item] \<rparr>
                else processQueue (s2\<lparr> inflight := inflight s2 @ [item] \<rparr>)))
          else s)"
  by pat_completeness auto
termination
  by (relation "measure (\<lambda>s. length (queue s))") auto

declare processQueue.simps [simp del]

text \<open>
  The rest of a suspended \<open>processQueue\<close> call, once its delay has elapsed:
  \<open>fetchAndCache(item)\<close> is called and the loop continues.
\<close>

definition after_delay :: "engine \<Rightarrow> nat \<Rightarrow> engine" where
  "after_delay s k =
     (if k < length (delayed s) then
        processQueue (s\<lparr> delayed := take k (delayed s) @ drop (Suc k) (delayed s),
                         inflight := inflight s @ [delayed s ! k] \<rparr>)
      else s)"

text \<open>The callback that \<open>processQueue\<close> attaches with \<open>finally\<close>.\<close>

definition on_finally :: "engine \<Rightarrow> queue_item \<Rightarrow> engine" where
  "on_finally s item =
     (let s1 = s\<lparr> processing := processing s - {url item},
                   processed := insert (url item) (processed s),
                   activeRequests := activeRequests s - 1 \<rparr>
      in if queue s1 \<noteq> [] then s1\<lparr> timers := Suc (timers s1) \<rparr> else s1)"

text \<open>
  The call of \<open>fetchAndCache\<close> for the \<open>k\<close>-th item in flight settles: its effects,
  then the \<open>finally\<close> callback.
\<close>

definition settle :: "engine \<Rightarrow> nat \<Rightarrow> fetch_env \<Rightarrow> engine" where
  "settle s k env =
     (if k < length (inflight s) then
        (let item = inflight s ! k;
             s1 = s\<lparr> inflight := take k (inflight s) @ drop (Suc k) (inflight s) \<rparr>
         in on_finally (fetchAndCache s1 item env) item)
      else s)"

text \<open>A pending \<open>setTimeout(() => this.processQueue(), 10)\<close> fires.\<close>

definition timer_fires :: "engine \<Rightarrow> engine" where
  "timer_fires s = (if timers s > 0 then processQueue (s\<lparr> timers := timers s - 1 \<rparr>) else s)"

section \<open>Hover booster\<close>

text \<open>\<open>Array.prototype.findIndex\<close>: the first index that satisfies the test, else \<open>-1\<close>.\<close>

fun findIndex :: "('a \<Rightarrow> bool) \<Rightarrow> 'a list \<Rightarrow> int" where
  "findIndex P [] = - 1"
| "findIndex P (x # xs) =
     (if P x then 0 else (let r = findIndex P xs in if r < 0 then - 1 else r + 1))"

definition boostPriority :: "engine \<Rightarrow> string \<Rightarrow> engine" where
  "boostPriority s u =
     (let index = findIndex (\<lambda>item. url item = Some u) (queue s) in
      if index > 0 then
        (let k = nat index;
             item = queue s ! k;
             spliced = take k (queue s) @ drop (Suc k) (queue s)
         in processQueue (s\<lparr> queue := item # spliced \<rparr>))
      else s)"

section \<open>Public operations\<close>

definition pause :: "engine \<Rightarrow> engine" where
  "pause s = s\<lparr> isPaused := True \<rparr>"

definition resume :: "engine \<Rightarrow> engine" where
  "resume s = processQueue (s\<lparr> isPaused := False \<rparr>)"

text \<open>
  \<open>clearCache()\<close>: every key of the platform's store is deleted, then the in-memory
  cache, the sets, the queue and the data counter are reset, and the clearing is
  broadcast.
\<close>

definition clearCache :: "engine \<Rightarrow> int \<Rightarrow> engine" where
  "clearCache s now =
     (let s1 = (case cacheAPI s of
                  None \<Rightarrow> s
                | Some store \<Rightarrow>
                    s\<lparr> cacheAPI := Some (foldl (\<lambda>st k. map_delete k st) store (map fst store)) \<rparr>);
          s2 = s1\<lparr> cache := [], processed := {}, processing := {}, queue := [],
                   dataUsed := Num 0 \<rparr>
      in if broadcastChannel s2 then s2\<lparr> outbox := outbox s2 @ [CacheClearMsg now] \<rparr> else s2)"

section \<open>Statistics\<close>

text \<open>
  The quotient of two numbers as JavaScript computes it: a zero divisor gives \<open>NaN\<close> or
  an infinity, not an error. A finite quotient is kept exact here; the rounding of the
  double is not modelled.
\<close>

datatype jsfloat = Finite rat | PosInfinity | NegInfinity | NotANumber

definition js_div :: "number \<Rightarrow> int \<Rightarrow> jsfloat" where
  "js_div a b =
     (case a of
        NaN \<Rightarrow> NotANumber
      | Num x \<Rightarrow>
          if b = 0 then (if x = 0 then NotANumber else if x > 0 then PosInfinity else NegInfinity)
          else Finite (of_int x / of_int b))"

fun js_times :: "jsfloat \<Rightarrow> rat \<Rightarrow> jsfloat" where
  "js_times (Finite r) k = Finite (r * k)"
| "js_times x k = x"

text \<open>\<open>x.toFixed(2)\<close>: two decimals, half rounded up in magnitude; a value that is not
  finite prints as its name.\<close>

definition fixed2 :: "rat \<Rightarrow> string" where
  "fixed2 r =
     (let n = nat \<lfloor>\<bar>r\<bar> * 100 + 1 / 2\<rfloor>
      in (if r < 0 then ''-'' else []) @ show_nat (n div 100) @ ''.''
         @ [digit_char (n mod 100 div 10), digit_char (n mod 10)])"

fun toFixed2 :: "jsfloat \<Rightarrow> string" where
  "toFixed2 (Finite r) = fixed2 r"
| "toFixed2 PosInfinity = ''Infinity''"
| "toFixed2 NegInfinity = ''-Infinity''"
| "toFixed2 NotANumber = ''NaN''"

text \<open>The object that \<open>getStats()\<close> returns, without its feature and delay fields.\<close>

record snapshot =
  queueLength :: nat
  n_processing :: nat
  n_processed :: nat
  n_activeRequests :: int
  cacheSize :: "nat option"
  n_totalRequests :: int
  n_cacheHits :: int
  n_cacheMisses :: int
  cacheHitRate :: string
  n_dataUsed :: number
  n_dataLimit :: int
  dataUsagePercent :: string
  sessionDuration :: int
  n_averageResponseTime :: string
  effectiveMaxConcurrent :: int

definition getStats :: "engine \<Rightarrow> int \<Rightarrow> snapshot" where
  "getStats s now =
     \<lparr> queueLength = length (queue s),
       n_processing = card (processing s),
       n_processed = card (processed s),
       n_activeRequests = activeRequests s,
       cacheSize = (case cacheAPI s of Some store \<Rightarrow> None | None \<Rightarrow> Some (length (cache s))),
       n_totalRequests = totalRequests (stats s),
       n_cacheHits = cacheHits (stats s),
       n_cacheMisses = cacheMisses (stats s),
       cacheHitRate =
         (if totalRequests (stats s) > 0
          then toFixed2 (js_times (js_div (Num (cacheHits (stats s))) (totalRequests (stats s))) 100)
               @ ''%''
          else ''0%''),
       n_dataUsed = dataUsed s,
       n_dataLimit = dataLimit (config s),
       dataUsagePercent =
         toFixed2 (js_times (js_div (dataUsed s) (dataLimit (config s))) 100) @ ''%'',
       sessionDuration = now - sessionStart s,
       n_averageResponseTime = fixed2 (averageResponseTime (stats s)) @ ''ms'',
       effectiveMaxConcurrent = getEffectiveMaxConcurrent s \<rparr>"

section \<open>Start-up\<close>

text \<open>
  What \<open>start()\<close> finds in the browser: \<open>navigator.connection\<close>, the content of the
  cache store \<open>ghostloader-cache-v1\<close> (when the platform has cache stores), and whether
  it has broadcast channels.
\<close>

record browser =
  nav_connection :: "connection option"
  caches_store :: "(jsurl \<times> response) list option"
  has_broadcast :: bool

definition detectConnection :: "engine \<Rightarrow> browser \<Rightarrow> engine" where
  "detectConnection s br =
     (case nav_connection br of
        None \<Rightarrow> s
      | Some c \<Rightarrow>
          s\<lparr> connectionInfo := Some c,
             stats := (stats s)\<lparr> connectionType :=
                         (if effectiveType c = [] then ''unknown'' else effectiveType c) \<rparr>,
             bandwidthEstimate :=
               (if downlink c \<noteq> 0 then Some (downlink c * 1000 * 1000)
                else bandwidthEstimate s) \<rparr>)"

text \<open>
  \<open>start()\<close>, run without another handler between its awaits. \<open>pg\<close> is the document
  when the hints are read, \<open>pg'\<close> the document after the initial delay.
\<close>

definition start :: "'u url_api \<Rightarrow> engine \<Rightarrow> browser \<Rightarrow> page \<Rightarrow> page \<Rightarrow> engine" where
  "start api s br pg pg' =
     (if isInitialized s then s
      else
        (let s1 = (if connectionAware (config s) then detectConnection s br else s);
             s2 = (if crossTabCache (config s1)
                   then s1\<lparr> broadcastChannel := has_broadcast br \<rparr> else s1);
             s3 = s2\<lparr> cacheAPI := caches_store br \<rparr>;
             s4 = (if ssrHints (config s3) then processSSRHints api s3 pg else s3);
             s5 = buildQueue api s4 pg';
             s6 = processQueue s5
         in s6\<lparr> isInitialized := True \<rparr>))"

section \<open>The engine in the event loop\<close>

text \<open>
  The handlers of the engine run one at a time, each to its end or to its next
  \<open>await\<close>. An event is one such run: \<open>start()\<close>; a call of \<open>processQueue()\<close>
  (after an instant transition, say); the end of the delay
  of a suspended call; the settling of a request in flight; a drain timer; a hover
  timer, which calls \<open>boostPriority\<close>; the public operations; a rebuild of the queue; a
  change of the live connection object; a message of another tab.
\<close>

datatype event =
    Start browser page page
  | ProcessQueue
  | DelayElapsed nat
  | Settled nat fetch_env
  | TimerFired
  | Hover string
  | Pause
  | Resume
  | ClearCache int
  | Rebuild page
  | ConnectionChange connection
  | TabCacheUpdate jsurl
  | TabCacheInvalidate jsurl

definition on_connection_change :: "engine \<Rightarrow> connection \<Rightarrow> engine" where
  "on_connection_change s c =
     (case connectionInfo s of
        None \<Rightarrow> s
      | Some old \<Rightarrow>
          s\<lparr> connectionInfo := Some c,
             stats := (stats s)\<lparr> connectionType := effectiveType c \<rparr> \<rparr>)"

fun apply_event :: "'u url_api \<Rightarrow> engine \<Rightarrow> event \<Rightarrow> engine" where
  "apply_event api s (Start br pg pg') = start api s br pg pg'"
| "apply_event api s ProcessQueue = processQueue s"
| "apply_event api s (DelayElapsed k) = after_delay s k"
| "apply_event api s (Settled k env) = settle s k env"
| "apply_event api s TimerFired = timer_fires s"
| "apply_event api s (Hover u) = boostPriority s u"
| "apply_event api s Pause = pause s"
| "apply_event api s Resume = resume s"
| "apply_event api s (ClearCache now) = clearCache s now"
| "apply_event api s (Rebuild pg) = buildQueue api s pg"
| "apply_event api s (ConnectionChange c) = on_connection_change s c"
| "apply_event api s (TabCacheUpdate u) =
     (if broadcastChannel s then s\<lparr> processed := insert u (processed s) \<rparr> else s)"
| "apply_event api s (TabCacheInvalidate u) =
     (if broadcastChannel s then invalidateCache s u else s)"

definition run :: "'u url_api \<Rightarrow> engine \<Rightarrow> event list \<Rightarrow> engine" where
  "run api s evs = foldl (apply_event api) s evs"

section \<open>Concrete inputs\<close>

text \<open>
  The default configuration of the constructor, without its exclusion patterns and with
  two of its exclusion selectors.
\<close>

definition example_config :: config where
  "example_config =
     \<lparr> cacheMode = ''local'', maxConcurrent = 3, betweenDelay = 100,
       excludeSelectors = [''[download]'', ''.no-preload''], excludePatterns = [],
       connectionAware = True, dataLimit = 52428800, bandwidthThrottle = True,
       cacheMaxSize = 100, cacheExpiration = 86400000, cacheVersion = ''1.0'',
       crossTabCache = True, ssrHints = True \<rparr>"

definition dom_item :: "string \<Rightarrow> int \<Rightarrow> queue_item" where
  "dom_item u p = \<lparr> url = Some u, element = None, priority = p, timestamp = 0, source = None \<rparr>"

definition three_queued :: engine where
  "three_queued =
     (new_engine example_config 0)
       \<lparr> queue := [dom_item ''/a'' 10, dom_item ''/b'' 20, dom_item ''/c'' 30] \<rparr>"

text \<open>
  The number of entries that the size limit evicts from a backend of \<open>count\<close> entries
  that has reached the maximum \<open>max\<close>: \<open>count - max + 10\<close>, and never more than there
  are.
\<close>

definition evict_count :: "engine \<Rightarrow> nat" where
  "evict_count s =
     nat (min (int (backend_count s)) (int (backend_count s) - cacheMaxSize (config s) + 10))"

text \<open>The keys of a \<open>Map\<close>, and of the platform's store, are pairwise different.\<close>

definition keys_distinct :: "engine \<Rightarrow> bool" where
  "keys_distinct s =
     (distinct (map fst (cache s))
      \<and> (case cacheAPI s of None \<Rightarrow> True | Some store \<Rightarrow> distinct (map fst store)))"

text \<open>Concrete caches and responses.\<close>

definition entry :: "string \<Rightarrow> int \<Rightarrow> jsurl \<times> cache_entry" where
  "entry k t = (Some k, \<lparr> c_url = Some k, content = [], c_timestamp = t, version = ''1.0'', c_size = 0 \<rparr>)"

definition cached :: "int \<Rightarrow> (jsurl \<times> cache_entry) list \<Rightarrow> engine" where
  "cached n es = (new_engine (example_config\<lparr> cacheMaxSize := n \<rparr>) 0)\<lparr> cache := es \<rparr>"

definition twelve_entries :: "(jsurl \<times> cache_entry) list" where
  "twelve_entries =
     [entry ''/l'' 12, entry ''/a'' 1, entry ''/b'' 2, entry ''/c'' 3, entry ''/d'' 4, entry ''/e'' 5,
      entry ''/f'' 6, entry ''/g'' 7, entry ''/h'' 8, entry ''/i'' 9, entry ''/j'' 10, entry ''/k'' 11]"

definition page_response :: response where
  "page_response = \<lparr> ok = True, status = 200, headers = [(''content-length'', ''5'')], body = Some ''hello'' \<rparr>"

definition stamp :: "int \<Rightarrow> metadata" where
  "stamp t = \<lparr> md_timestamp = Some (Num t), md_version = Some ''1.0'', md_size = Some (Num 5) \<rparr>"

definition twelve_cached :: engine where
  "twelve_cached = cached 11 twelve_entries"

definition five_cached :: engine where
  "five_cached =
     cached 5 [entry ''/a'' 1, entry ''/b'' 2, entry ''/c'' 3, entry ''/d'' 4, entry ''/e'' 5]"

definition no_room :: engine where
  "no_room = cached 0 []"

definition thirteen_max :: engine where
  "thirteen_max = cached 13 twelve_entries"

text \<open>The readings of a call of \<open>fetchAndCache\<close> made a day and some seconds after the clock reading 1000.\<close>

definition late_env :: fetch_env where
  "late_env = \<lparr> net = Responded page_response, t_start = 86402000, t_check = 86402000,
                 t_store = 86402050, t_put = 86402050, t_post = 86402050, t_end = 86402050 \<rparr>"

text \<open>
  A stand-in platform for the concrete examples: a string with something before its
  first \<open>#\<close> is an absolute URL of the origin \<open>https://example.org\<close>, and is its own
  serialisation.
\<close>

definition toy_api :: "string url_api" where
  "toy_api =
     \<lparr> url_parse = (\<lambda>s b. if takeWhile (\<lambda>c. c \<noteq> CHR ''#'') s = [] then None else Some s),
       url_set_hash = (\<lambda>u h. takeWhile (\<lambda>c. c \<noteq> CHR ''#'') u
                               @ (if h = [] then [] else CHR ''#'' # h)),
       url_hash = (\<lambda>u. let f = dropWhile (\<lambda>c. c \<noteq> CHR ''#'') u
                        in if length f \<le> 1 then [] else f),
       url_href = (\<lambda>u. u),
       url_origin = (\<lambda>u. ''https://example.org'') \<rparr>"

section \<open>The drain loop, one iteration at a time\<close>

text \<open>
  One iteration of the loop of \<open>processQueue\<close>, as a relation between the state before
  and the state after: the head of the queue is skipped, or stops the loop at the data
  limit, or is started and waits for the inter-item delay, or is started and fetched.
\<close>

inductive loop_step :: "engine \<Rightarrow> engine \<Rightarrow> bool" where
  skip: "queue s = item # rest \<Longrightarrow> activeRequests s < getEffectiveMaxConcurrent s \<Longrightarrow>
         url item \<in> processing s \<or> url item \<in> processed s \<Longrightarrow>
         loop_step s (s\<lparr> queue := rest \<rparr>)"
| stop: "queue s = item # rest \<Longrightarrow> activeRequests s < getEffectiveMaxConcurrent s \<Longrightarrow>
         url item \<notin> processing s \<Longrightarrow> url item \<notin> processed s \<Longrightarrow>
         connectionAware (config s) \<Longrightarrow> \<not> withinDataLimits s \<Longrightarrow>
         loop_step s (s\<lparr> queue := rest \<rparr>)"
| wait: "queue s = item # rest \<Longrightarrow> activeRequests s < getEffectiveMaxConcurrent s \<Longrightarrow>
         url item \<notin> processing s \<Longrightarrow> url item \<notin> processed s \<Longrightarrow>
         connectionAware (config s) \<longrightarrow> withinDataLimits s \<Longrightarrow>
         betweenDelay (config s) > 0 \<and> activeRequests s + 1 > 1 \<Longrightarrow>
         loop_step s (s\<lparr> queue := rest, processing := insert (url item) (processing s),
                           activeRequests := activeRequests s + 1,
                           delayed := delayed s @ [item] \<rparr>)"
| fetch: "queue s = item # rest \<Longrightarrow> activeRequests s < getEffectiveMaxConcurrent s \<Longrightarrow>
         url item \<notin> processing s \<Longrightarrow> url item \<notin> processed s \<Longrightarrow>
         connectionAware (config s) \<longrightarrow> withinDataLimits s \<Longrightarrow>
         \<not> (betweenDelay (config s) > 0 \<and> activeRequests s + 1 > 1) \<Longrightarrow>
         loop_step s (s\<lparr> queue := rest, processing := insert (url item) (processing s),
                           activeRequests := activeRequests s + 1,
                           inflight := inflight s @ [item] \<rparr>)"

text \<open>A document with one high-priority hint and two visible links, and browsers.\<close>

definition visible_link :: "string \<Rightarrow> int \<Rightarrow> anchor" where
  "visible_link u y = \<lparr> href = u, matches = [], rect_top = y, rect_bottom = y + 20 \<rparr>"

definition hint_page :: page where
  "hint_page =
     \<lparr> location_href = ''https://example.org/'', location_origin = ''https://example.org'',
       innerHeight = 800, links = [visible_link ''/b'' 100, visible_link ''/c'' 200],
       meta_hints = [\<lparr> hint_content = Some ''/a'', data_priority = Some ''high'' \<rparr>],
       json_ld = [], clock = 5 \<rparr>"

definition plain_browser :: browser where
  "plain_browser = \<lparr> nav_connection = None, caches_store = None, has_broadcast = False \<rparr>"

definition fast_browser :: browser where
  "fast_browser =
     \<lparr> nav_connection = Some \<lparr> effectiveType = ''4g'', downlink = 10, saveData = False \<rparr>,
       caches_store = None, has_broadcast = False \<rparr>"

definition slow_browser :: browser where
  "slow_browser =
     \<lparr> nav_connection = Some \<lparr> effectiveType = ''2g'', downlink = 1, saveData = False \<rparr>,
       caches_store = None, has_broadcast = False \<rparr>"

definition slow_connection :: connection where
  "slow_connection = \<lparr> effectiveType = ''2g'', downlink = 1, saveData = False \<rparr>"

text \<open>
  The states that a run goes through, the first one included, and the largest effective
  concurrency cap among the states after its events (0 when the run has no event, or
  when every such cap is negative).
\<close>

fun trace :: "'u url_api \<Rightarrow> engine \<Rightarrow> event list \<Rightarrow> engine list" where
  "trace api s [] = [s]"
| "trace api s (e # evs) = s # trace api (apply_event api s e) evs"

definition peak_cap :: "'u url_api \<Rightarrow> engine \<Rightarrow> event list \<Rightarrow> int" where
  "peak_cap api s evs = foldr max (map getEffectiveMaxConcurrent (tl (trace api s evs))) 0"

text \<open>The fields that the hint ingestor, and the part of \<open>start\<close> before the drain, leave alone.\<close>

definition hints_frame :: "engine \<Rightarrow> engine \<Rightarrow> bool" where
  "hints_frame s s' =
     (config s' = config s \<and> processing s' = processing s \<and> processed s' = processed s
      \<and> activeRequests s' = activeRequests s \<and> connectionInfo s' = connectionInfo s
      \<and> dataUsed s' = dataUsed s \<and> delayed s' = delayed s \<and> inflight s' = inflight s
      \<and> requests s' = requests s \<and> isPaused s' = isPaused s)"

definition pre_drain :: "engine \<Rightarrow> engine \<Rightarrow> bool" where
  "pre_drain s s' =
     (config s' = config s \<and> processing s' = processing s \<and> processed s' = processed s
      \<and> activeRequests s' = activeRequests s \<and> dataUsed s' = dataUsed s
      \<and> delayed s' = delayed s \<and> inflight s' = inflight s
      \<and> requests s' = requests s \<and> isPaused s' = isPaused s)"

text \<open>The example configuration with a data limit of 0, with and without \<open>connectionAware\<close>.\<close>

definition zero_limit :: config where
  "zero_limit = example_config\<lparr> dataLimit := 0 \<rparr>"

definition zero_limit_unaware :: config where
  "zero_limit_unaware = example_config\<lparr> dataLimit := 0, connectionAware := False \<rparr>"

text \<open>
  A session whose data limit is 0, with \<open>connectionAware\<close> set, in which nothing has been
  fetched: no byte is counted, no call is suspended or in flight, no request was made.
\<close>

definition budget_gone :: "engine \<Rightarrow> bool" where
  "budget_gone s =
     (dataLimit (config s) = 0 \<and> connectionAware (config s) \<and> dataUsed s = Num 0
      \<and> inflight s = [] \<and> delayed s = [] \<and> requests s = [])"

text \<open>An engine that admits one request at a time, with two items queued.\<close>

definition two_queued :: engine where
  "two_queued =
     (new_engine (example_config\<lparr> maxConcurrent := 1 \<rparr>) 0)
       \<lparr> queue := [dom_item ''/a'' 10, dom_item ''/b'' 20] \<rparr>"

text \<open>The readings of a call of \<open>fetchAndCache\<close> whose request fails with a network error.\<close>

definition offline_env :: fetch_env where
  "offline_env = \<lparr> net = NetError, t_start = 100, t_check = 100, t_store = 100, t_put = 100,
                    t_post = 100, t_end = 100 \<rparr>"

section \<open>Calls held for a URL\<close>











section \<open>Helper lemmas on decimal strings\<close>


lemma is_digit_digit_char: "d < 10 \<Longrightarrow> is_digit (digit_char d)"
proof -
  assume "d < 10"
  then have "d \<in> {0, 1, 2, 3, 4, 5, 6, 7, 8, 9}"
    by auto
  then show ?thesis
    by (auto simp: is_digit_def digit_char_def)
qed

lemma show_nat_digits: "\<forall>c \<in> set (show_nat n). is_digit c"
proof (induction n rule: show_nat.induct)
  case (1 n)
  show ?case
  proof (cases "n < 10")
    case True
    then show ?thesis
      by (simp add: show_nat.simps [of n] is_digit_digit_char)
  next
    case False
    with "1" show ?thesis
      by (simp add: show_nat.simps [of n] is_digit_digit_char)
  qed
qed

lemma show_nat_nonempty: "show_nat n \<noteq> []"
  by (simp add: show_nat.simps [of n])



lemma hd_show_nat_digit: "is_digit (hd (show_nat n))"
  using show_nat_digits [of n] show_nat_nonempty [of n]
  by (cases "show_nat n") auto





section \<open>Helper lemmas on lists\<close>

lemma findIndex_none: "\<forall>x \<in> set xs. \<not> P x \<Longrightarrow> findIndex P xs = - 1"
  by (induction xs) (auto simp: Let_def)

lemma findIndex_first:
  "k < length xs \<Longrightarrow> P (xs ! k) \<Longrightarrow> \<forall>j<k. \<not> P (xs ! j) \<Longrightarrow> findIndex P xs = int k"
proof (induction xs arbitrary: k)
  case Nil
  then show ?case by simp
next
  case (Cons x xs)
  show ?case
  proof (cases k)
    case 0
    with Cons.prems show ?thesis by simp
  next
    case (Suc m)
    with Cons.prems have nx: "\<not> P x" by auto
    from Suc Cons.prems have "m < length xs" "P (xs ! m)" "\<forall>j<m. \<not> P (xs ! j)"
      by auto
    then have "findIndex P xs = int m"
      by (rule Cons.IH)
    with nx Suc show ?thesis by (simp add: Let_def)
  qed
qed

lemma findIndex_head: "xs \<noteq> [] \<Longrightarrow> P (hd xs) \<Longrightarrow> findIndex P xs = 0"
  by (cases xs) auto

lemma foldl_map_delete:
  "foldl (\<lambda>st k. map_delete k st) st ks = filter (\<lambda>e. fst e \<notin> set ks) st"
  by (induction ks arbitrary: st) (auto simp: map_delete_def intro: filter_cong)

lemma foldl_map_delete_all: "foldl (\<lambda>st k. map_delete k st) st (map fst st) = []"
  by (simp add: foldl_map_delete)

section \<open>Hover boost\<close>

text \<open>
  Claim C5. When \<open>boostPriority(u)\<close> is called and the first item of the queue for \<open>u\<close>
  stands at a position \<open>k > 0\<close>, that item is taken out and put at position 0, the other
  items keep their order (the queue without its \<open>k\<close>-th item follows the moved one),
  and \<open>processQueue()\<close> is called on the result at once. When no item of the queue is
  for \<open>u\<close>, or when the head of the queue is, the call changes nothing.
\<close>

theorem boostPriority_relocates:
  "(k < length (queue s) \<and> 0 < k \<and> url (queue s ! k) = Some u
      \<and> (\<forall>j<k. url (queue s ! j) \<noteq> Some u)
     \<longrightarrow> boostPriority s u =
           processQueue (s\<lparr> queue := queue s ! k # (take k (queue s) @ drop (Suc k) (queue s)) \<rparr>))
   \<and> (Some u \<notin> url ` set (queue s) \<or> (queue s \<noteq> [] \<and> url (hd (queue s)) = Some u)
     \<longrightarrow> boostPriority s u = s)"
proof (intro conjI impI)
  assume a: "k < length (queue s) \<and> 0 < k \<and> url (queue s ! k) = Some u
      \<and> (\<forall>j<k. url (queue s ! j) \<noteq> Some u)"
  then have "findIndex (\<lambda>item. url item = Some u) (queue s) = int k"
    by (intro findIndex_first) auto
  with a show "boostPriority s u =
           processQueue (s\<lparr> queue := queue s ! k # (take k (queue s) @ drop (Suc k) (queue s)) \<rparr>)"
    by (simp add: boostPriority_def Let_def)
next
  assume "Some u \<notin> url ` set (queue s) \<or> (queue s \<noteq> [] \<and> url (hd (queue s)) = Some u)"
  then have "findIndex (\<lambda>item. url item = Some u) (queue s) \<le> 0"
  proof
    assume "Some u \<notin> url ` set (queue s)"
    then have "findIndex (\<lambda>item. url item = Some u) (queue s) = - 1"
      by (intro findIndex_none) force
    then show ?thesis by simp
  next
    assume "queue s \<noteq> [] \<and> url (hd (queue s)) = Some u"
    then show ?thesis by (simp add: findIndex_head)
  qed
  then show "boostPriority s u = s"
    by (simp add: boostPriority_def Let_def)
qed

theorem boostPriority_relocates_witness:
  "boostPriority three_queued ''/c'' =
     processQueue (three_queued\<lparr> queue := [dom_item ''/c'' 30, dom_item ''/a'' 10, dom_item ''/b'' 20] \<rparr>)
   \<and> boostPriority three_queued ''/a'' = three_queued
   \<and> boostPriority three_queued ''/z'' = three_queued"
proof -
  have q: "queue three_queued = [dom_item ''/a'' 10, dom_item ''/b'' 20, dom_item ''/c'' 30]"
    by (simp add: three_queued_def)
  have pre: "2 < length (queue three_queued) \<and> 0 < (2::nat)
      \<and> url (queue three_queued ! 2) = Some ''/c''
      \<and> (\<forall>j<2. url (queue three_queued ! j) \<noteq> Some ''/c'')"
    by (simp add: q dom_item_def less_Suc_eq numeral_2_eq_2)
  have a: "queue three_queued \<noteq> [] \<and> url (hd (queue three_queued)) = Some ''/a''"
    by (simp add: q dom_item_def)
  have z: "Some ''/z'' \<notin> url ` set (queue three_queued)"
    by (simp add: q dom_item_def)
  show ?thesis
    using boostPriority_relocates [of 2 three_queued "''/c''"]
      boostPriority_relocates [of 0 three_queued "''/a''"]
      boostPriority_relocates [of 0 three_queued "''/z''"] pre a z
    by (simp add: q)
qed

section \<open>Clearing the caches\<close>

text \<open>
  Claim C10. \<open>clearCache()\<close> empties the in-memory cache (and the platform's store, when
  there is one), the pending queue and the processing and processed sets, and resets
  \<open>dataUsed\<close> to 0; the statistics record, with all its fields, and the configuration
  are what they were, and so are the request counter and the pause flag.
\<close>

theorem clearCache_frame:
  "cache (clearCache s now) = [] \<and> queue (clearCache s now) = []
   \<and> processing (clearCache s now) = {} \<and> processed (clearCache s now) = {}
   \<and> dataUsed (clearCache s now) = Num 0
   \<and> cacheAPI (clearCache s now) = map_option (\<lambda>store. []) (cacheAPI s)
   \<and> stats (clearCache s now) = stats s \<and> config (clearCache s now) = config s
   \<and> activeRequests (clearCache s now) = activeRequests s
   \<and> isPaused (clearCache s now) = isPaused s"
  by (simp add: clearCache_def Let_def foldl_map_delete_all split: option.splits)

section \<open>Helper lemmas on the cache\<close>

lemma slice0_nonneg: "0 \<le> e \<Longrightarrow> slice0 xs e = take (nat e) xs"
  by (simp add: slice0_def min_def)

lemma foldl_entry_delete:
  "foldl (\<lambda>c e. map_delete (fst e) c) c es = filter (\<lambda>x. fst x \<notin> fst ` set es) c"
proof -
  have "foldl (\<lambda>c e. map_delete (fst e) c) c es = foldl (\<lambda>st k. map_delete k st) c (map fst es)"
    by (simp add: foldl_map)
  then show ?thesis
    by (simp add: foldl_map_delete)
qed

lemma filter_keys_drop:
  "distinct (map fst xs) \<Longrightarrow> filter (\<lambda>e. fst e \<notin> set (take m (map fst xs))) xs = drop m xs"
proof -
  assume d: "distinct (map fst xs)"
  have split: "xs = take m xs @ drop m xs" by simp
  have keys: "map fst xs = map fst (take m xs) @ map fst (drop m xs)"
    by (metis append_take_drop_id map_append)
  with d have disj: "set (map fst (take m xs)) \<inter> set (map fst (drop m xs)) = {}"
    by (metis distinct_append)
  have a: "filter (\<lambda>e. fst e \<notin> set (take m (map fst xs))) (take m xs) = []"
    by (auto simp: filter_empty_conv take_map)
  have b: "filter (\<lambda>e. fst e \<notin> set (take m (map fst xs))) (drop m xs) = drop m xs"
    using disj by (auto simp: filter_id_conv take_map)
  have "filter (\<lambda>e. fst e \<notin> set (take m (map fst xs))) (take m xs @ drop m xs) = drop m xs"
    unfolding filter_append a b by simp
  then show ?thesis by simp
qed

lemma filter_keys_entries:
  assumes d: "distinct (map fst xs)" and sub: "set T \<subseteq> set xs"
  shows "filter (\<lambda>x. fst x \<notin> fst ` set T) xs = filter (\<lambda>x. x \<notin> set T) xs"
proof (rule filter_cong [OF refl])
  fix x assume x: "x \<in> set xs"
  have inj: "inj_on fst (set xs)"
    using d by (simp add: distinct_map)
  show "(fst x \<notin> fst ` set T) = (x \<notin> set T)"
    using inj x sub by (auto dest: inj_onD)
qed

lemma length_filter_notin:
  assumes d: "distinct xs" and sub: "set T \<subseteq> set xs" and dT: "distinct T"
  shows "length (filter (\<lambda>x. x \<notin> set T) xs) = length xs - length T"
proof -
  have "length (filter (\<lambda>x. x \<notin> set T) xs) = card ({x. x \<notin> set T} \<inter> set xs)"
    using d by (rule distinct_length_filter)
  also have "{x. x \<notin> set T} \<inter> set xs = set xs - set T" by auto
  also have "card (set xs - set T) = card (set xs) - card (set T)"
    using sub by (simp add: card_Diff_subset)
  finally show ?thesis
    using d dT by (simp add: distinct_card)
qed

lemma sorted_take_drop_le:
  assumes "sorted (map f S)" "r \<in> set (take m S)" "k \<in> set (drop m S)"
  shows "f r \<le> f k"
proof -
  have "sorted (map f (take m S) @ map f (drop m S))"
    using assms(1) by (metis append_take_drop_id map_append)
  then show ?thesis
    using assms(2,3) by (auto simp: sorted_append)
qed

lemma take_evict:
  assumes "length S = c" "N \<le> int c"
  shows "take (nat (int c - N + 10)) S = take (nat (min (int c) (int c - N + 10))) S"
proof (cases "int c - N + 10 \<le> int c")
  case True
  then show ?thesis by (simp add: min_def)
next
  case False
  then have "nat (min (int c) (int c - N + 10)) = c" by (simp add: min_def)
  moreover from False have "c \<le> nat (int c - N + 10)" by linarith
  ultimately show ?thesis using assms(1) by simp
qed

lemma enforce_memory:
  assumes api: "cacheAPI s = None" and full: "cacheMaxSize (config s) \<le> int (length (cache s))"
    and d: "distinct (map fst (cache s))"
  shows "cache (enforceCacheLimit s) =
           filter (\<lambda>x. x \<notin> set (take (evict_count s) (sort_key (\<lambda>e. c_timestamp (snd e)) (cache s))))
             (cache s)"
proof -
  let ?S = "sort_key (\<lambda>e. c_timestamp (snd e)) (cache s)"
  let ?e = "int (length (cache s)) - cacheMaxSize (config s) + 10"
  have e: "0 \<le> ?e" using full by simp
  have tk: "take (nat ?e) ?S = take (evict_count s) ?S"
    using take_evict [of ?S "length (cache s)" "cacheMaxSize (config s)"] full api
    by (simp add: evict_count_def backend_count_def)
  have "cache (enforceCacheLimit s) = filter (\<lambda>x. fst x \<notin> fst ` set (take (nat ?e) ?S)) (cache s)"
    using api full e by (simp add: enforceCacheLimit_def Let_def slice0_nonneg foldl_entry_delete)
  also have "\<dots> = filter (\<lambda>x. x \<notin> set (take (nat ?e) ?S)) (cache s)"
  proof (rule filter_keys_entries [OF d])
    have "set (take (nat ?e) ?S) \<subseteq> set ?S" by (rule set_take_subset)
    then show "set (take (nat ?e) ?S) \<subseteq> set (cache s)" by simp
  qed
  finally show ?thesis by (simp add: tk)
qed

lemma enforce_store:
  assumes api: "cacheAPI s = Some store" and full: "cacheMaxSize (config s) \<le> int (length store)"
    and d: "distinct (map fst store)"
  shows "cacheAPI (enforceCacheLimit s) = Some (drop (evict_count s) store)"
proof -
  let ?e = "int (length store) - cacheMaxSize (config s) + 10"
  have e: "0 \<le> ?e" using full by simp
  have tk: "take (nat ?e) (map fst store) = take (evict_count s) (map fst store)"
    using take_evict [of "map fst store" "length store" "cacheMaxSize (config s)"] full api
    by (simp add: evict_count_def backend_count_def)
  have "cacheAPI (enforceCacheLimit s) =
          Some (filter (\<lambda>x. fst x \<notin> set (take (nat ?e) (map fst store))) store)"
    using api full e by (simp add: enforceCacheLimit_def Let_def slice0_nonneg foldl_map_delete)
  then show ?thesis
    using d by (simp add: tk filter_keys_drop)
qed

lemma enforce_below:
  "int (backend_count s) < cacheMaxSize (config s) \<Longrightarrow> enforceCacheLimit s = s"
  by (auto simp: enforceCacheLimit_def backend_count_def Let_def split: option.splits)

lemma evict_count_le: "evict_count s \<le> backend_count s"
  by (simp add: evict_count_def)

lemma enforce_count:
  assumes full: "cacheMaxSize (config s) \<le> int (backend_count s)" and d: "keys_distinct s"
  shows "backend_count (enforceCacheLimit s) = backend_count s - evict_count s"
proof (cases "cacheAPI s")
  case None
  let ?S = "sort_key (\<lambda>e. c_timestamp (snd e)) (cache s)"
  from None full have f: "cacheMaxSize (config s) \<le> int (length (cache s))"
    by (simp add: backend_count_def)
  from d have dk: "distinct (map fst (cache s))" by (simp add: keys_distinct_def)
  then have dc: "distinct (cache s)" by (simp add: distinct_map)
  have api': "cacheAPI (enforceCacheLimit s) = None"
    using None by (simp add: enforceCacheLimit_def Let_def)
  have sub: "set (take (evict_count s) ?S) \<subseteq> set (cache s)"
    using set_take_subset [of "evict_count s" ?S] by simp
  have dT: "distinct (take (evict_count s) ?S)"
    using dc by simp
  have len: "length (take (evict_count s) ?S) = evict_count s"
    using evict_count_le [of s] None by (simp add: backend_count_def)
  have "length (cache (enforceCacheLimit s)) = length (cache s) - evict_count s"
    unfolding enforce_memory [OF None f dk]
    using length_filter_notin [OF dc sub dT] len by simp
  then show ?thesis
    using None api' by (simp add: backend_count_def)
next
  case (Some store)
  from Some full have f: "cacheMaxSize (config s) \<le> int (length store)"
    by (simp add: backend_count_def)
  from d Some have dk: "distinct (map fst store)" by (simp add: keys_distinct_def)
  show ?thesis
    using enforce_store [OF Some f dk] Some by (simp add: backend_count_def)
qed

lemma enforce_keys_distinct: "keys_distinct s \<Longrightarrow> keys_distinct (enforceCacheLimit s)"
  by (auto simp: keys_distinct_def enforceCacheLimit_def Let_def foldl_map_delete
      foldl_entry_delete distinct_map_filter split: option.splits)


lemma length_map_set: "length (map_set k v m) \<le> Suc (length m)"
  by (simp add: map_set_def)

lemma length_store_put: "length (store_put k v m) \<le> Suc (length m)"
  by (simp add: store_put_def map_delete_def)

lemma store_count: "backend_count (storeInCache s u r md now) \<le> Suc (backend_count (enforceCacheLimit s))"
  using length_map_set length_store_put
  by (auto simp: storeInCache_def backend_count_def Let_def split: option.splits)

lemma storeInCache_split:
  "storeInCache s u r md now = storeInCache_insert (enforceCacheLimit s) u r md now"
  by (simp add: storeInCache_def storeInCache_insert_def Let_def)

lemma insert_count: "backend_count (storeInCache_insert s u r md now) \<le> Suc (backend_count s)"
  using length_map_set length_store_put
  by (auto simp: storeInCache_insert_def backend_count_def split: option.splits)

lemma insertions_count: "backend_count (insertions s ws) \<le> backend_count s + length ws"
proof (induction ws arbitrary: s)
  case Nil
  show ?case by (simp add: insertions_def)
next
  case (Cons w ws)
  obtain u r md now where w: "w = (u, r, md, now)" by (cases w)
  have "insertions s (w # ws) = insertions (storeInCache_insert s u r md now) ws"
    by (simp add: insertions_def w)
  moreover have "backend_count (insertions (storeInCache_insert s u r md now) ws)
                   \<le> backend_count (storeInCache_insert s u r md now) + length ws"
    by (rule Cons.IH)
  ultimately show ?case
    using insert_count [of s u r md now] by simp
qed

lemma enforce_room:
  assumes wf: "keys_distinct s" and n: "1 \<le> cacheMaxSize (config s)"
  shows "int (backend_count (enforceCacheLimit s)) \<le> cacheMaxSize (config s) - 1"
proof (cases "cacheMaxSize (config s) \<le> int (backend_count s)")
  case True
  then have "backend_count (enforceCacheLimit s) = backend_count s - evict_count s"
    using wf by (rule enforce_count)
  then show ?thesis
    using n True by (simp add: evict_count_def min_def split: if_splits)
next
  case False
  then show ?thesis by (simp add: enforce_below)
qed

section \<open>Bounded cache\<close>

text \<open>
  Claim C3, amended. Let the keys of the backend be pairwise different, as those of a
  \<open>Map\<close> are. For every configured \<open>cacheMaxSize\<close> of at least 1, the backend holds at most
  \<open>cacheMaxSize\<close> entries after a call of \<open>storeInCache\<close> whose insertion follows its own
  eviction pass with no other insertion in between; after an eviction pass followed by
  the insertions of \<open>k\<close> calls it holds at most \<open>cacheMaxSize - 1 + k\<close> entries. When
  \<open>enforceCacheLimit\<close> runs with an entry count at or above \<open>cacheMaxSize\<close>, it evicts
  \<open>count - cacheMaxSize + 10\<close> entries, or all of them when there are fewer (so exactly
  \<open>count - cacheMaxSize + 10\<close> for a \<open>cacheMaxSize\<close> of 10 or more, and every entry below
  10): the first of the key order on the platform's store, the oldest by ascending
  timestamp on the in-memory backend, where every evicted entry is at most as recent as
  every entry that is kept.
\<close>

theorem cache_size_limit:
  assumes wf: "keys_distinct s"
  shows "(1 \<le> cacheMaxSize (config s)
            \<longrightarrow> int (backend_count (storeInCache s u r md now)) \<le> cacheMaxSize (config s))
    \<and> (1 \<le> cacheMaxSize (config s)
            \<longrightarrow> int (backend_count (insertions (enforceCacheLimit s) ws))
                  \<le> cacheMaxSize (config s) - 1 + int (length ws))
    \<and> (cacheMaxSize (config s) \<le> int (backend_count s) \<longrightarrow>
         backend_count (enforceCacheLimit s) = backend_count s - evict_count s
         \<and> (10 \<le> cacheMaxSize (config s)
              \<longrightarrow> int (evict_count s) = int (backend_count s) - cacheMaxSize (config s) + 10)
         \<and> (cacheMaxSize (config s) < 10 \<longrightarrow> evict_count s = backend_count s)
         \<and> (\<forall>store. cacheAPI s = Some store
              \<longrightarrow> cacheAPI (enforceCacheLimit s) = Some (drop (evict_count s) store))
         \<and> (cacheAPI s = None \<longrightarrow>
              (let old = take (evict_count s) (sort_key (\<lambda>e. c_timestamp (snd e)) (cache s)) in
               cache (enforceCacheLimit s) = filter (\<lambda>x. x \<notin> set old) (cache s)
               \<and> (\<forall>r \<in> set old. \<forall>k \<in> set (cache (enforceCacheLimit s)).
                     c_timestamp (snd r) \<le> c_timestamp (snd k)))))"
proof (intro conjI impI allI)
  assume n: "1 \<le> cacheMaxSize (config s)"
  have "int (backend_count (enforceCacheLimit s)) \<le> cacheMaxSize (config s) - 1"
    using wf n by (rule enforce_room)
  then show "int (backend_count (storeInCache s u r md now)) \<le> cacheMaxSize (config s)"
    using store_count [of s u r md now] by linarith
next
  assume n: "1 \<le> cacheMaxSize (config s)"
  have "int (backend_count (enforceCacheLimit s)) \<le> cacheMaxSize (config s) - 1"
    using wf n by (rule enforce_room)
  then show "int (backend_count (insertions (enforceCacheLimit s) ws))
               \<le> cacheMaxSize (config s) - 1 + int (length ws)"
    using insertions_count [of "enforceCacheLimit s" ws] by linarith
next
  assume full: "cacheMaxSize (config s) \<le> int (backend_count s)"
  show "backend_count (enforceCacheLimit s) = backend_count s - evict_count s"
    using full wf by (rule enforce_count)
  show "int (evict_count s) = int (backend_count s) - cacheMaxSize (config s) + 10"
    if "10 \<le> cacheMaxSize (config s)"
    using that full by (simp add: evict_count_def min_def)
  show "evict_count s = backend_count s" if "cacheMaxSize (config s) < 10"
    using that by (simp add: evict_count_def min_def)
  show "cacheAPI (enforceCacheLimit s) = Some (drop (evict_count s) store)"
    if "cacheAPI s = Some store" for store
    using that full wf by (intro enforce_store) (simp_all add: backend_count_def keys_distinct_def)
  show "let old = take (evict_count s) (sort_key (\<lambda>e. c_timestamp (snd e)) (cache s)) in
          cache (enforceCacheLimit s) = filter (\<lambda>x. x \<notin> set old) (cache s)
          \<and> (\<forall>r \<in> set old. \<forall>k \<in> set (cache (enforceCacheLimit s)).
                c_timestamp (snd r) \<le> c_timestamp (snd k))"
    if api: "cacheAPI s = None"
  proof -
    let ?S = "sort_key (\<lambda>e. c_timestamp (snd e)) (cache s)"
    let ?old = "take (evict_count s) ?S"
    have eq: "cache (enforceCacheLimit s) = filter (\<lambda>x. x \<notin> set ?old) (cache s)"
      using api full wf by (intro enforce_memory) (simp_all add: backend_count_def keys_distinct_def)
    have ord: "c_timestamp (snd r) \<le> c_timestamp (snd k)"
      if r: "r \<in> set ?old" and k: "k \<in> set (cache (enforceCacheLimit s))" for r k
    proof -
      from k have "k \<in> set (cache s)" "k \<notin> set ?old" by (simp_all add: eq)
      then have "k \<in> set (take (evict_count s) ?S @ drop (evict_count s) ?S)" by simp
      with \<open>k \<notin> set ?old\<close> have "k \<in> set (drop (evict_count s) ?S)"
        unfolding set_append by blast
      moreover have "sorted (map (\<lambda>e. c_timestamp (snd e)) ?S)"
        by (rule sorted_sort_key)
      ultimately show ?thesis
        using r by (intro sorted_take_drop_le [where f = "\<lambda>e. c_timestamp (snd e)" and S = ?S])
    qed
    show ?thesis
      unfolding Let_def
    proof (intro conjI ballI)
      show "cache (enforceCacheLimit s) = filter (\<lambda>x. x \<notin> set ?old) (cache s)"
        by (rule eq)
    next
      fix r k
      assume "r \<in> set ?old" and "k \<in> set (cache (enforceCacheLimit s))"
      then show "c_timestamp (snd r) \<le> c_timestamp (snd k)"
        by (rule ord)
    qed
  qed
qed

lemma twelve_cached_simps:
  "cache twelve_cached = twelve_entries" "cacheAPI twelve_cached = None"
  "cacheMaxSize (config twelve_cached) = 11"
  by (simp_all add: twelve_cached_def cached_def new_engine_def example_config_def)

lemma twelve_distinct: "keys_distinct twelve_cached"
  by (simp add: keys_distinct_def twelve_cached_simps twelve_entries_def entry_def)

theorem cache_size_limit_witness:
  "int (backend_count (storeInCache twelve_cached (Some ''/m'') page_response (stamp 13) 13)) \<le> 11
   \<and> int (backend_count (insertions (enforceCacheLimit twelve_cached)
            [(Some ''/m'', page_response, stamp 13, 13), (Some ''/n'', page_response, stamp 14, 14)]))
        \<le> 12
   \<and> backend_count twelve_cached = 12 \<and> evict_count twelve_cached = 11
   \<and> backend_count (enforceCacheLimit twelve_cached) = 1
   \<and> cache (enforceCacheLimit twelve_cached) = [entry ''/l'' 12]"
proof -
  have c: "backend_count twelve_cached = 12"
    by (simp add: backend_count_def twelve_cached_simps twelve_entries_def)
  have e: "evict_count twelve_cached = 11"
    by (simp add: evict_count_def c twelve_cached_simps)
  have srt: "sort_key (\<lambda>e. c_timestamp (snd e)) twelve_entries =
     [entry ''/a'' 1, entry ''/b'' 2, entry ''/c'' 3, entry ''/d'' 4, entry ''/e'' 5,
      entry ''/f'' 6, entry ''/g'' 7, entry ''/h'' 8, entry ''/i'' 9, entry ''/j'' 10,
      entry ''/k'' 11, entry ''/l'' 12]"
    by (simp add: twelve_entries_def entry_def)
  have flt: "filter (\<lambda>x. x \<notin> set (take 11 (sort_key (\<lambda>e. c_timestamp (snd e)) twelve_entries)))
               twelve_entries = [entry ''/l'' 12]"
    unfolding srt by (simp add: twelve_entries_def entry_def)
  show ?thesis
    using cache_size_limit [OF twelve_distinct, of "Some ''/m''" page_response "stamp 13" 13
        "[(Some ''/m'', page_response, stamp 13, 13), (Some ''/n'', page_response, stamp 14, 14)]"]
    by (simp add: c e twelve_cached_simps Let_def flt)
qed

text \<open>
  The claim as first stated fails at small maxima, and when calls overlap. With
  \<open>cacheMaxSize = 5\<close> and five entries the limit evicts the five entries, not
  \<open>5 - 5 + 10 = 10\<close>; with \<open>cacheMaxSize = 0\<close> a store on the empty cache leaves one entry.
  With \<open>cacheMaxSize = 13\<close> and twelve entries, two calls of \<open>storeInCache\<close> for two
  requests in flight each find room in their eviction pass, and after the two
  insertions the cache holds 14 entries.
\<close>

theorem cache_size_limit_counterexample:
  "cacheMaxSize (config five_cached) = 5 \<and> backend_count five_cached = 5
   \<and> backend_count (enforceCacheLimit five_cached) = 0
   \<and> int (backend_count five_cached) - int (backend_count (enforceCacheLimit five_cached))
       \<noteq> int (backend_count five_cached) - cacheMaxSize (config five_cached) + 10
   \<and> cacheMaxSize (config no_room) = 0
   \<and> backend_count (storeInCache no_room (Some ''/a'') page_response (stamp 1) 1) = 1
   \<and> cacheMaxSize (config thirteen_max) = 13 \<and> backend_count thirteen_max = 12
   \<and> backend_count
         (storeInCache_insert
            (storeInCache_insert (enforceCacheLimit (enforceCacheLimit thirteen_max))
               (Some ''/m'') page_response (stamp 13) 13)
            (Some ''/n'') page_response (stamp 14) 14) = 14"
proof -
  have small: "cacheMaxSize (config five_cached) = 5 \<and> backend_count five_cached = 5
     \<and> backend_count (enforceCacheLimit five_cached) = 0
     \<and> cacheMaxSize (config no_room) = 0
     \<and> backend_count (storeInCache no_room (Some ''/a'') page_response (stamp 1) 1) = 1"
    by (simp add: five_cached_def no_room_def cached_def new_engine_def example_config_def
        backend_count_def enforceCacheLimit_def storeInCache_def slice0_def map_delete_def
        map_set_def entry_def page_response_def stamp_def Let_def)
  have n: "cacheMaxSize (config thirteen_max) = 13"
    and c: "backend_count thirteen_max = 12"
    by (simp_all add: thirteen_max_def cached_def new_engine_def example_config_def
        backend_count_def twelve_entries_def)
  have room: "enforceCacheLimit thirteen_max = thirteen_max"
    by (rule enforce_below) (simp add: n c)
  have two: "backend_count
         (storeInCache_insert
            (storeInCache_insert thirteen_max (Some ''/m'') page_response (stamp 13) 13)
            (Some ''/n'') page_response (stamp 14) 14) = 14"
    by (simp add: thirteen_max_def cached_def new_engine_def example_config_def
        backend_count_def storeInCache_insert_def map_set_def twelve_entries_def entry_def
        page_response_def stamp_def)
  from small n c two show ?thesis
    by (simp add: room)
qed

section \<open>Helper lemmas on cache reads\<close>











lemma enforce_frame:
  "enforceCacheLimit s = s\<lparr> cache := cache (enforceCacheLimit s), cacheAPI := cacheAPI (enforceCacheLimit s) \<rparr>"
  by (simp add: enforceCacheLimit_def Let_def split: option.splits)

lemma store_frame:
  "storeInCache s u r md now =
     s\<lparr> cache := cache (storeInCache s u r md now), cacheAPI := cacheAPI (storeInCache s u r md now) \<rparr>"
proof -
  obtain c a where e: "enforceCacheLimit s = s\<lparr> cache := c, cacheAPI := a \<rparr>"
    using enforce_frame by blast
  show ?thesis
    unfolding storeInCache_def e by (simp add: Let_def split: option.splits)
qed



lemma store_broadcast: "broadcastChannel (storeInCache s u r md now) = broadcastChannel s"
  by (subst store_frame) simp




section \<open>Expired entries\<close>



section \<open>Helper lemmas on the drain loop\<close>

lemma within_queue [simp]: "withinDataLimits (s\<lparr> queue := q \<rparr>) = withinDataLimits s"
  by (simp add: withinDataLimits_def)

lemma cap_queue [simp]: "getEffectiveMaxConcurrent (s\<lparr> queue := q \<rparr>) = getEffectiveMaxConcurrent s"
  by (simp add: getEffectiveMaxConcurrent_def cong: option.case_cong if_cong)

lemma processQueue_steps: "loop_step\<^sup>*\<^sup>* s (processQueue s)"
proof (induction s rule: processQueue.induct)
  case (1 s)
  show ?case
  proof (cases "queue s")
    case Nil
    then show ?thesis by (simp add: processQueue.simps [of s])
  next
    case (Cons item rest)
    note q = Cons
    show ?thesis
    proof (cases "activeRequests s < getEffectiveMaxConcurrent s")
      case False
      with q show ?thesis by (simp add: processQueue.simps [of s])
    next
      case cap: True
      let ?s1 = "s\<lparr> queue := rest \<rparr>"
      show ?thesis
      proof (cases "url item \<in> processing s \<or> url item \<in> processed s")
        case True
        then have st: "loop_step s ?s1"
          using q cap by (intro loop_step.skip)
        have "loop_step\<^sup>*\<^sup>* ?s1 (processQueue ?s1)"
          using "1.IH"(1) [OF q cap refl] True by simp
        moreover have "processQueue s = processQueue ?s1"
          using q cap True by (simp add: processQueue.simps [of s])
        ultimately show ?thesis
          using st by (simp add: converse_rtranclp_into_rtranclp)
      next
        case new: False
        show ?thesis
        proof (cases "connectionAware (config s) \<and> \<not> withinDataLimits s")
          case True
          then have "loop_step s ?s1"
            using q cap new by (intro loop_step.stop) auto
          moreover have "processQueue s = ?s1"
            using q cap new True by (simp add: processQueue.simps [of s])
          ultimately show ?thesis by simp
        next
          case lim: False
          let ?s2 = "?s1\<lparr> processing := insert (url item) (processing ?s1),
                              activeRequests := activeRequests ?s1 + 1 \<rparr>"
          show ?thesis
          proof (cases "betweenDelay (config s) > 0 \<and> activeRequests s + 1 > 1")
            case True
            then have "loop_step s (s\<lparr> queue := rest, processing := insert (url item) (processing s),
                           activeRequests := activeRequests s + 1,
                           delayed := delayed s @ [item] \<rparr>)"
              using q cap new lim by (intro loop_step.wait) auto
            moreover have "processQueue s = s\<lparr> queue := rest, processing := insert (url item) (processing s),
                           activeRequests := activeRequests s + 1,
                           delayed := delayed s @ [item] \<rparr>"
              using q cap new lim True by (auto simp: processQueue.simps [of s] Let_def)
            ultimately show ?thesis by simp
          next
            case False
            let ?s3 = "s\<lparr> queue := rest, processing := insert (url item) (processing s),
                           activeRequests := activeRequests s + 1,
                           inflight := inflight s @ [item] \<rparr>"
            have st: "loop_step s ?s3"
              using q cap new lim False by (intro loop_step.fetch) auto
            have eq: "processQueue s = processQueue ?s3"
              using q cap new lim False by (auto simp: processQueue.simps [of s] Let_def)
            have "loop_step\<^sup>*\<^sup>* (?s2\<lparr> inflight := inflight ?s2 @ [item] \<rparr>)
                    (processQueue (?s2\<lparr> inflight := inflight ?s2 @ [item] \<rparr>))"
              using new lim False by (intro "1.IH"(2) [OF q cap refl _ _ refl]) auto
            then have "loop_step\<^sup>*\<^sup>* ?s3 (processQueue ?s3)" by simp
            with st eq show ?thesis
              by (simp add: converse_rtranclp_into_rtranclp)
          qed
        qed
      qed
    qed
  qed
qed

section \<open>What the handlers leave unchanged\<close>

lemma store_fields:
  "config (storeInCache s u r md now) = config s"
  "queue (storeInCache s u r md now) = queue s"
  "processing (storeInCache s u r md now) = processing s"
  "processed (storeInCache s u r md now) = processed s"
  "activeRequests (storeInCache s u r md now) = activeRequests s"
  "isPaused (storeInCache s u r md now) = isPaused s"
  "dataUsed (storeInCache s u r md now) = dataUsed s"
  "connectionInfo (storeInCache s u r md now) = connectionInfo s"
  "delayed (storeInCache s u r md now) = delayed s"
  "inflight (storeInCache s u r md now) = inflight s"
  "timers (storeInCache s u r md now) = timers s"
  by (subst store_frame, simp)+

lemma ok_response_fields:
  "config (on_ok_response s u r env) = config s"
  "queue (on_ok_response s u r env) = queue s"
  "processing (on_ok_response s u r env) = processing s"
  "processed (on_ok_response s u r env) = processed s"
  "activeRequests (on_ok_response s u r env) = activeRequests s"
  "isPaused (on_ok_response s u r env) = isPaused s"
  "connectionInfo (on_ok_response s u r env) = connectionInfo s"
  "delayed (on_ok_response s u r env) = delayed s"
  "inflight (on_ok_response s u r env) = inflight s"
  "timers (on_ok_response s u r env) = timers s"
  by (simp_all add: on_ok_response_def Let_def broadcastCacheUpdate_def store_fields)

lemma fetch_fields:
  "config (fetchAndCache s item env) = config s"
  "queue (fetchAndCache s item env) = queue s"
  "processing (fetchAndCache s item env) = processing s"
  "processed (fetchAndCache s item env) = processed s"
  "activeRequests (fetchAndCache s item env) = activeRequests s"
  "isPaused (fetchAndCache s item env) = isPaused s"
  "connectionInfo (fetchAndCache s item env) = connectionInfo s"
  "delayed (fetchAndCache s item env) = delayed s"
  "inflight (fetchAndCache s item env) = inflight s"
  "timers (fetchAndCache s item env) = timers s"
  by (cases "net env"; simp add: fetchAndCache_def Let_def ok_response_fields)+

lemma loop_step_fields:
  assumes "loop_step s s'"
  shows "config s' = config s \<and> processed s' = processed s
       \<and> connectionInfo s' = connectionInfo s \<and> isPaused s' = isPaused s
       \<and> dataUsed s' = dataUsed s \<and> requests s' = requests s \<and> timers s' = timers s
       \<and> stats s' = stats s \<and> cache s' = cache s \<and> cacheAPI s' = cacheAPI s
       \<and> broadcastChannel s' = broadcastChannel s \<and> isInitialized s' = isInitialized s"
  using assms by cases simp_all

lemma loop_steps_fields:
  assumes "loop_step\<^sup>*\<^sup>* s s'"
  shows "config s' = config s \<and> processed s' = processed s
       \<and> connectionInfo s' = connectionInfo s \<and> isPaused s' = isPaused s
       \<and> dataUsed s' = dataUsed s \<and> requests s' = requests s \<and> timers s' = timers s
       \<and> stats s' = stats s \<and> cache s' = cache s \<and> cacheAPI s' = cacheAPI s
       \<and> broadcastChannel s' = broadcastChannel s \<and> isInitialized s' = isInitialized s"
  using assms
proof (induction rule: rtranclp_induct)
  case base
  show ?case by simp
next
  case (step y z)
  from loop_step_fields [OF step.hyps(2)] step.IH show ?case by simp
qed

lemmas processQueue_fields = loop_steps_fields [OF processQueue_steps]

lemma cap_cong:
  "config s' = config s \<Longrightarrow> connectionInfo s' = connectionInfo s \<Longrightarrow>
   getEffectiveMaxConcurrent s' = getEffectiveMaxConcurrent s"
  by (simp add: getEffectiveMaxConcurrent_def cong: option.case_cong if_cong)

lemma within_cong:
  "config s' = config s \<Longrightarrow> connectionInfo s' = connectionInfo s \<Longrightarrow> dataUsed s' = dataUsed s \<Longrightarrow>
   withinDataLimits s' = withinDataLimits s"
  by (simp add: withinDataLimits_def cong: option.case_cong if_cong)

lemma loop_step_active:
  assumes "loop_step s s'"
  shows "activeRequests s' \<le> max (activeRequests s) (getEffectiveMaxConcurrent s)"
  using assms by cases simp_all

lemma loop_steps_active:
  assumes "loop_step\<^sup>*\<^sup>* s s'"
  shows "activeRequests s' \<le> max (activeRequests s) (getEffectiveMaxConcurrent s)"
  using assms
proof (induction rule: rtranclp_induct)
  case base
  show ?case by simp
next
  case (step y z)
  have "getEffectiveMaxConcurrent y = getEffectiveMaxConcurrent s"
    using loop_steps_fields [OF step.hyps(1)] by (intro cap_cong) simp_all
  with loop_step_active [OF step.hyps(2)] step.IH show ?case by simp
qed

lemma processQueue_active:
  "activeRequests (processQueue s) \<le> max (activeRequests s) (getEffectiveMaxConcurrent s)"
  by (rule loop_steps_active [OF processQueue_steps])

lemma processQueue_cap: "getEffectiveMaxConcurrent (processQueue s) = getEffectiveMaxConcurrent s"
  using processQueue_fields [of s] by (intro cap_cong) simp_all

lemma hints_frame_refl: "hints_frame s s"
  by (simp add: hints_frame_def)

lemma hints_frame_trans: "hints_frame a b \<Longrightarrow> hints_frame b c \<Longrightarrow> hints_frame a c"
  by (simp add: hints_frame_def)

lemma meta_step_frame: "hints_frame s (meta_step api pg s m)"
  by (simp add: meta_step_def hints_frame_def Let_def split: option.splits)

lemma json_step_frame: "hints_frame s (json_step api pg s h)"
  by (simp add: json_step_def hints_frame_def split: option.splits)

lemma foldl_frame:
  assumes "\<And>s x. hints_frame s (f s x)"
  shows "hints_frame s (foldl f s xs)"
proof (induction xs arbitrary: s)
  case Nil
  show ?case by (simp add: hints_frame_refl)
next
  case (Cons x xs)
  from assms [of s x] Cons [of "f s x"] show ?case
    by (simp add: hints_frame_trans)
qed

lemma script_step_frame: "hints_frame s (script_step api pg s sc)"
  by (cases sc) (simp_all add: script_step_def hints_frame_refl foldl_frame json_step_frame)

lemma processSSRHints_frame: "hints_frame s (processSSRHints api s pg)"
  unfolding processSSRHints_def
  by (rule hints_frame_trans [OF foldl_frame foldl_frame]) (rule meta_step_frame script_step_frame)+

lemma start_unfold:
  assumes "\<not> isInitialized s"
  shows "\<exists>s5. start api s br pg pg' = (processQueue s5)\<lparr> isInitialized := True \<rparr> \<and> pre_drain s s5"
proof -
  define s1 where "s1 = (if connectionAware (config s) then detectConnection s br else s)"
  define s2 where "s2 = (if crossTabCache (config s1)
                   then s1\<lparr> broadcastChannel := has_broadcast br \<rparr> else s1)"
  define s3 where "s3 = s2\<lparr> cacheAPI := caches_store br \<rparr>"
  define s4 where "s4 = (if ssrHints (config s3) then processSSRHints api s3 pg else s3)"
  define s5 where "s5 = buildQueue api s4 pg'"
  have 1: "pre_drain s s1"
    by (simp add: s1_def pre_drain_def detectConnection_def split: option.splits)
  have 2: "pre_drain s1 s3"
    by (simp add: s2_def s3_def pre_drain_def)
  have 3: "pre_drain s3 s4"
    using processSSRHints_frame [of s3 api pg]
    by (simp add: s4_def pre_drain_def hints_frame_def)
  have 4: "pre_drain s4 s5"
    by (simp add: s5_def pre_drain_def buildQueue_def)
  have "pre_drain s s5"
    using 1 2 3 4 by (simp add: pre_drain_def)
  moreover have "start api s br pg pg' = (processQueue s5)\<lparr> isInitialized := True \<rparr>"
    using assms by (simp add: start_def Let_def s1_def s2_def s3_def s4_def s5_def)
  ultimately show ?thesis by blast
qed

lemma cap_initialized [simp]:
  "getEffectiveMaxConcurrent (s\<lparr> isInitialized := b \<rparr>) = getEffectiveMaxConcurrent s"
  by (simp add: getEffectiveMaxConcurrent_def cong: option.case_cong if_cong)

lemma step_active:
  "activeRequests (apply_event api s e)
     \<le> max (activeRequests s) (getEffectiveMaxConcurrent (apply_event api s e))"
proof (cases e)
  case (Start br pg pg')
  show ?thesis
  proof (cases "isInitialized s")
    case True
    with Start show ?thesis by (simp add: start_def)
  next
    case False
    from start_unfold [OF False, of api br pg pg'] obtain s5
      where st: "start api s br pg pg' = (processQueue s5)\<lparr> isInitialized := True \<rparr>"
        and pd: "pre_drain s s5" by blast
    have "activeRequests (processQueue s5) \<le> max (activeRequests s5) (getEffectiveMaxConcurrent (processQueue s5))"
      using processQueue_active [of s5] by (simp add: processQueue_cap)
    with pd Start st show ?thesis by (simp add: pre_drain_def)
  qed
next
  case ProcessQueue
  then show ?thesis using processQueue_active [of s] by (simp add: processQueue_cap)
next
  case (DelayElapsed k)
  let ?s = "s\<lparr> delayed := take k (delayed s) @ drop (Suc k) (delayed s),
                  inflight := inflight s @ [delayed s ! k] \<rparr>"
  have "activeRequests (processQueue ?s) \<le> max (activeRequests ?s) (getEffectiveMaxConcurrent (processQueue ?s))"
    using processQueue_active [of ?s] by (simp add: processQueue_cap)
  with DelayElapsed show ?thesis by (simp add: after_delay_def)
next
  case (Settled k env)
  then show ?thesis
    by (simp add: settle_def on_finally_def Let_def fetch_fields le_max_iff_disj)
next
  case TimerFired
  let ?s = "s\<lparr> timers := timers s - 1 \<rparr>"
  have "activeRequests (processQueue ?s) \<le> max (activeRequests ?s) (getEffectiveMaxConcurrent (processQueue ?s))"
    using processQueue_active [of ?s] by (simp add: processQueue_cap)
  with TimerFired show ?thesis by (simp add: timer_fires_def)
next
  case (Hover u)
  show ?thesis
  proof (cases "boostPriority s u = s")
    case True
    with Hover show ?thesis by simp
  next
    case False
    then obtain q where b: "boostPriority s u = processQueue (s\<lparr> queue := q \<rparr>)"
      by (auto simp: boostPriority_def Let_def split: if_splits)
    have "activeRequests (processQueue (s\<lparr> queue := q \<rparr>))
            \<le> max (activeRequests (s\<lparr> queue := q \<rparr>))
                  (getEffectiveMaxConcurrent (processQueue (s\<lparr> queue := q \<rparr>)))"
      using processQueue_active [of "s\<lparr> queue := q \<rparr>"] by (simp add: processQueue_cap)
    with Hover b show ?thesis by simp
  qed
next
  case Pause
  then show ?thesis by (simp add: pause_def)
next
  case Resume
  let ?s = "s\<lparr> isPaused := False \<rparr>"
  have "activeRequests (processQueue ?s) \<le> max (activeRequests ?s) (getEffectiveMaxConcurrent (processQueue ?s))"
    using processQueue_active [of ?s] by (simp add: processQueue_cap)
  with Resume show ?thesis by (simp add: resume_def)
next
  case (ClearCache now)
  then show ?thesis by (simp add: clearCache_def Let_def split: option.splits)
next
  case (Rebuild pg)
  then show ?thesis by (simp add: buildQueue_def)
next
  case (ConnectionChange c)
  then show ?thesis by (simp add: on_connection_change_def split: option.splits)
next
  case (TabCacheUpdate u)
  then show ?thesis by simp
next
  case (TabCacheInvalidate u)
  then show ?thesis by (simp add: invalidateCache_def split: option.splits)
qed

lemma run_Nil [simp]: "run api s [] = s"
  by (simp add: run_def)

lemma run_Cons [simp]: "run api s (e # evs) = run api (apply_event api s e) evs"
  by (simp add: run_def)


lemma foldr_max_nonneg: "0 \<le> foldr max xs (0::int)"
  by (induction xs) simp_all

lemma cap_new_engine: "getEffectiveMaxConcurrent (new_engine cfg now) = maxConcurrent cfg"
  by (simp add: getEffectiveMaxConcurrent_def new_engine_def)

lemma started_hint_page:
  "activeRequests (start toy_api (new_engine example_config 0) fast_browser hint_page hint_page) = 2
   \<and> getEffectiveMaxConcurrent (start toy_api (new_engine example_config 0) fast_browser hint_page hint_page) = 3
   \<and> connectionInfo (start toy_api (new_engine example_config 0) fast_browser hint_page hint_page)
       = Some \<lparr> effectiveType = ''4g'', downlink = 10, saveData = False \<rparr>
   \<and> config (start toy_api (new_engine example_config 0) fast_browser hint_page hint_page) = example_config"
  by (simp add: start_def detectConnection_def fast_browser_def processSSRHints_def meta_step_def
      buildQueue_def link_item_def hint_page_def new_engine_def example_config_def toy_api_def
      normalizeUrl_def shouldExclude_def shouldPreload_def withinDataLimits_def visible_link_def
      getEffectiveMaxConcurrent_def connectionLimits_def processQueue.simps Let_def)

lemma started_slow:
  "activeRequests (start toy_api (new_engine example_config 0) slow_browser hint_page hint_page) = 1
   \<and> getEffectiveMaxConcurrent (start toy_api (new_engine example_config 0) slow_browser hint_page hint_page) = 1"
  by (simp add: start_def detectConnection_def slow_browser_def processSSRHints_def meta_step_def
      buildQueue_def link_item_def hint_page_def new_engine_def example_config_def toy_api_def
      normalizeUrl_def shouldExclude_def shouldPreload_def withinDataLimits_def visible_link_def
      getEffectiveMaxConcurrent_def connectionLimits_def processQueue.simps Let_def)

lemma trace_tl: "tl (trace api s (e # evs)) = trace api (apply_event api s e) evs"
  by simp

lemma trace_hd: "trace api s evs = s # tl (trace api s evs)"
  by (cases evs) simp_all

lemma peak_Nil: "peak_cap api s [] = 0"
  by (simp add: peak_cap_def)

lemma peak_Cons:
  "peak_cap api s (e # evs)
     = max (getEffectiveMaxConcurrent (apply_event api s e)) (peak_cap api (apply_event api s e) evs)"
proof -
  have "trace api (apply_event api s e) evs
          = apply_event api s e # tl (trace api (apply_event api s e) evs)"
    by (rule trace_hd)
  then have "map getEffectiveMaxConcurrent (tl (trace api s (e # evs)))
          = getEffectiveMaxConcurrent (apply_event api s e)
              # map getEffectiveMaxConcurrent (tl (trace api (apply_event api s e) evs))"
    by (metis trace_tl list.simps(9))
  then show ?thesis by (simp add: peak_cap_def)
qed

lemma run_active:
  "activeRequests (run api s evs) \<le> max (activeRequests s) (peak_cap api s evs)"
proof (induction evs arbitrary: s)
  case Nil
  show ?case by simp
next
  case (Cons e evs)
  have "activeRequests (run api (apply_event api s e) evs)
          \<le> max (activeRequests (apply_event api s e)) (peak_cap api (apply_event api s e) evs)"
    by (rule Cons.IH)
  moreover have "activeRequests (apply_event api s e)
          \<le> max (activeRequests s) (getEffectiveMaxConcurrent (apply_event api s e))"
    by (rule step_active)
  ultimately show ?case by (simp add: peak_Cons)
qed

lemma foldr_max_le: "0 \<le> c \<Longrightarrow> \<forall>x \<in> set xs. x \<le> c \<Longrightarrow> foldr max xs (0::int) \<le> c"
  by (induction xs) simp_all

lemma peak_le:
  assumes "0 \<le> c" "\<forall>x \<in> set (tl (trace api s evs)). getEffectiveMaxConcurrent x \<le> c"
  shows "peak_cap api s evs \<le> c"
  unfolding peak_cap_def using assms by (intro foldr_max_le) auto

section \<open>Concurrency bound\<close>

text \<open>
  Claim C2, amended. From any state of the engine on, \<open>activeRequests\<close> is at most the larger
  of its value at that state and the largest value that \<open>getEffectiveMaxConcurrent()\<close> has
  after any of the events since: \<open>processQueue\<close> only increments the counter after
  re-checking it against the cap at the top of each drain iteration, and every fetch
  completion decrements it. So, from construction on, the counter is at most the largest
  cap in force after any event so far; and at every reachable state whose cap is
  non-negative and not below the cap after any event so far, the counter is at most
  the cap of that state. A cap that has dropped since does not bring the counter down:
  requests in flight are not cancelled.
\<close>

theorem active_requests_bounded:
  "activeRequests (run api s evs) \<le> max (activeRequests s) (peak_cap api s evs)
   \<and> activeRequests (run api (new_engine cfg now) evs) \<le> peak_cap api (new_engine cfg now) evs
   \<and> (0 \<le> getEffectiveMaxConcurrent (run api (new_engine cfg now) evs)
        \<and> (\<forall>x \<in> set (tl (trace api (new_engine cfg now) evs)).
              getEffectiveMaxConcurrent x
                \<le> getEffectiveMaxConcurrent (run api (new_engine cfg now) evs))
       \<longrightarrow> activeRequests (run api (new_engine cfg now) evs)
             \<le> getEffectiveMaxConcurrent (run api (new_engine cfg now) evs))"
proof (intro conjI impI)
  show "activeRequests (run api s evs) \<le> max (activeRequests s) (peak_cap api s evs)"
    by (rule run_active)
  have nonneg: "0 \<le> peak_cap api (new_engine cfg now) evs"
    unfolding peak_cap_def by (rule foldr_max_nonneg)
  have fresh: "activeRequests (new_engine cfg now) = 0"
    by (simp add: new_engine_def)
  show top: "activeRequests (run api (new_engine cfg now) evs) \<le> peak_cap api (new_engine cfg now) evs"
    using run_active [of api "new_engine cfg now" evs] nonneg fresh by simp
  assume "0 \<le> getEffectiveMaxConcurrent (run api (new_engine cfg now) evs)
        \<and> (\<forall>x \<in> set (tl (trace api (new_engine cfg now) evs)).
              getEffectiveMaxConcurrent x
                \<le> getEffectiveMaxConcurrent (run api (new_engine cfg now) evs))"
  then have "peak_cap api (new_engine cfg now) evs
               \<le> getEffectiveMaxConcurrent (run api (new_engine cfg now) evs)"
    by (intro peak_le) simp_all
  with top show "activeRequests (run api (new_engine cfg now) evs)
             \<le> getEffectiveMaxConcurrent (run api (new_engine cfg now) evs)"
    by linarith
qed

theorem active_requests_bounded_witness:
  "activeRequests (run toy_api (new_engine example_config 0)
      [Start slow_browser hint_page hint_page]) = 1
   \<and> peak_cap toy_api (new_engine example_config 0) [Start slow_browser hint_page hint_page] = 1
   \<and> getEffectiveMaxConcurrent (run toy_api (new_engine example_config 0)
        [Start slow_browser hint_page hint_page]) = 1
   \<and> activeRequests (run toy_api (new_engine example_config 0)
        [Start slow_browser hint_page hint_page])
       \<le> getEffectiveMaxConcurrent (run toy_api (new_engine example_config 0)
            [Start slow_browser hint_page hint_page])"
proof -
  let ?s0 = "new_engine example_config 0"
  let ?evs = "[Start slow_browser hint_page hint_page]"
  have fresh: "\<not> isInitialized ?s0" by (simp add: new_engine_def)
  have r: "run toy_api ?s0 ?evs = start toy_api ?s0 slow_browser hint_page hint_page"
    using fresh by simp
  have a: "activeRequests (run toy_api ?s0 ?evs) = 1"
    and c: "getEffectiveMaxConcurrent (run toy_api ?s0 ?evs) = 1"
    unfolding r using started_slow by simp_all
  have t: "tl (trace toy_api ?s0 ?evs) = [run toy_api ?s0 ?evs]"
    by simp
  have p: "peak_cap toy_api ?s0 ?evs = 1"
    unfolding peak_cap_def t by (simp only: list.map foldr.simps o_apply c) simp
  have h: "0 \<le> getEffectiveMaxConcurrent (run toy_api ?s0 ?evs)
        \<and> (\<forall>x \<in> set (tl (trace toy_api ?s0 ?evs)).
              getEffectiveMaxConcurrent x \<le> getEffectiveMaxConcurrent (run toy_api ?s0 ?evs))"
    unfolding t by (simp only: c list.set ball_simps) simp
  from active_requests_bounded [of toy_api ?s0 ?evs example_config 0] h
  have "activeRequests (run toy_api ?s0 ?evs) \<le> getEffectiveMaxConcurrent (run toy_api ?s0 ?evs)"
    by blast
  with a c p show ?thesis by simp
qed

text \<open>
  The claim as first stated fails when the connection changes: after \<open>start()\<close> on a 4g
  connection two requests are active under a cap of 3; the connection changes to 2g,
  the cap is 1 and two requests are still active.
\<close>

theorem active_requests_counterexample:
  "activeRequests (run toy_api (new_engine example_config 0)
      [Start fast_browser hint_page hint_page, ConnectionChange slow_connection]) = 2
   \<and> getEffectiveMaxConcurrent (run toy_api (new_engine example_config 0)
      [Start fast_browser hint_page hint_page, ConnectionChange slow_connection]) = 1
   \<and> \<not> activeRequests (run toy_api (new_engine example_config 0)
          [Start fast_browser hint_page hint_page, ConnectionChange slow_connection])
       \<le> getEffectiveMaxConcurrent (run toy_api (new_engine example_config 0)
          [Start fast_browser hint_page hint_page, ConnectionChange slow_connection])"
proof -
  let ?st = "start toy_api (new_engine example_config 0) fast_browser hint_page hint_page"
  have "activeRequests (on_connection_change ?st slow_connection) = 2
        \<and> getEffectiveMaxConcurrent (on_connection_change ?st slow_connection) = 1"
    using started_hint_page
    by (simp add: on_connection_change_def getEffectiveMaxConcurrent_def connectionLimits_def
        slow_connection_def example_config_def)
  then show ?thesis by simp
qed

section \<open>Helper lemmas on the data limit\<close>

lemma budget_gone_limits: "budget_gone s \<Longrightarrow> \<not> withinDataLimits s"
  by (simp add: budget_gone_def withinDataLimits_def)

lemma loop_step_budget:
  assumes "loop_step s s'" "budget_gone s"
  shows "budget_gone s'"
  using assms
proof cases
  case (skip item rest)
  with assms(2) show ?thesis by (simp add: budget_gone_def)
next
  case (stop item rest)
  with assms(2) show ?thesis by (simp add: budget_gone_def)
next
  case (wait item rest)
  with budget_gone_limits [OF assms(2)] assms(2) show ?thesis by (simp add: budget_gone_def)
next
  case (fetch item rest)
  with budget_gone_limits [OF assms(2)] assms(2) show ?thesis by (simp add: budget_gone_def)
qed

lemma loop_steps_budget:
  assumes "loop_step\<^sup>*\<^sup>* s s'" "budget_gone s"
  shows "budget_gone s'"
  using assms by (induction rule: rtranclp_induct) (auto intro: loop_step_budget)

lemma processQueue_budget: "budget_gone s \<Longrightarrow> budget_gone (processQueue s)"
  by (rule loop_steps_budget [OF processQueue_steps])

lemma step_budget:
  assumes "budget_gone s"
  shows "budget_gone (apply_event api s e)"
proof (cases e)
  case (Start br pg pg')
  show ?thesis
  proof (cases "isInitialized s")
    case True
    with Start assms show ?thesis by (simp add: start_def)
  next
    case False
    from start_unfold [OF False, of api br pg pg'] obtain s5
      where st: "start api s br pg pg' = (processQueue s5)\<lparr> isInitialized := True \<rparr>"
        and pd: "pre_drain s s5" by blast
    from pd assms have "budget_gone s5"
      by (simp add: pre_drain_def budget_gone_def)
    then have "budget_gone (processQueue s5)" by (rule processQueue_budget)
    with Start st show ?thesis by (simp add: budget_gone_def)
  qed
next
  case ProcessQueue
  with assms show ?thesis by (simp add: processQueue_budget)
next
  case (DelayElapsed k)
  with assms show ?thesis by (simp add: after_delay_def budget_gone_def)
next
  case (Settled k env)
  with assms show ?thesis by (simp add: settle_def budget_gone_def)
next
  case TimerFired
  from assms have "budget_gone (s\<lparr> timers := timers s - 1 \<rparr>)"
    by (simp add: budget_gone_def)
  then have "budget_gone (processQueue (s\<lparr> timers := timers s - 1 \<rparr>))"
    by (rule processQueue_budget)
  with TimerFired assms show ?thesis by (simp add: timer_fires_def)
next
  case (Hover u)
  show ?thesis
  proof (cases "boostPriority s u = s")
    case True
    with Hover assms show ?thesis by simp
  next
    case False
    then obtain q where b: "boostPriority s u = processQueue (s\<lparr> queue := q \<rparr>)"
      by (auto simp: boostPriority_def Let_def split: if_splits)
    from assms have "budget_gone (s\<lparr> queue := q \<rparr>)"
      by (simp add: budget_gone_def)
    then have "budget_gone (processQueue (s\<lparr> queue := q \<rparr>))"
      by (rule processQueue_budget)
    with Hover b show ?thesis by simp
  qed
next
  case Pause
  with assms show ?thesis by (simp add: pause_def budget_gone_def)
next
  case Resume
  from assms have "budget_gone (s\<lparr> isPaused := False \<rparr>)"
    by (simp add: budget_gone_def)
  then have "budget_gone (processQueue (s\<lparr> isPaused := False \<rparr>))"
    by (rule processQueue_budget)
  with Resume show ?thesis by (simp add: resume_def)
next
  case (ClearCache now)
  with assms show ?thesis
    by (simp add: clearCache_def budget_gone_def Let_def split: option.splits)
next
  case (Rebuild pg)
  with assms show ?thesis by (simp add: buildQueue_def budget_gone_def)
next
  case (ConnectionChange c)
  with assms show ?thesis
    by (simp add: on_connection_change_def budget_gone_def split: option.splits)
next
  case (TabCacheUpdate u)
  with assms show ?thesis by (simp add: budget_gone_def)
next
  case (TabCacheInvalidate u)
  with assms show ?thesis
    by (simp add: invalidateCache_def budget_gone_def split: option.splits)
qed

lemma run_budget: "budget_gone s \<Longrightarrow> budget_gone (run api s evs)"
  by (induction evs arbitrary: s) (simp_all add: step_budget)

section \<open>A data limit of zero\<close>

text \<open>
  Claim C8, amended. With \<open>dataLimit = 0\<close>, \<open>withinDataLimits()\<close> returns false from the
  start of the session (\<open>dataUsed >= dataLimit\<close> holds at 0). When \<open>connectionAware\<close> is
  set, as it is by default, it stays false at every state the engine reaches, no item
  is ever started or fetched, no request is handed to \<open>fetch\<close>, and \<open>dataUsed\<close> stays 0.
\<close>

theorem zero_data_limit:
  "dataLimit cfg = 0 \<longrightarrow>
     \<not> withinDataLimits (new_engine cfg now)
     \<and> (connectionAware cfg \<longrightarrow>
          \<not> withinDataLimits (run api (new_engine cfg now) evs)
          \<and> requests (run api (new_engine cfg now) evs) = []
          \<and> inflight (run api (new_engine cfg now) evs) = []
          \<and> delayed (run api (new_engine cfg now) evs) = []
          \<and> dataUsed (run api (new_engine cfg now) evs) = Num 0)"
proof (intro impI conjI)
  assume z: "dataLimit cfg = 0"
  then show "\<not> withinDataLimits (new_engine cfg now)"
    by (simp add: withinDataLimits_def new_engine_def)
  assume "connectionAware cfg"
  with z have "budget_gone (new_engine cfg now)"
    by (simp add: budget_gone_def new_engine_def)
  then have b: "budget_gone (run api (new_engine cfg now) evs)"
    by (rule run_budget)
  then show "\<not> withinDataLimits (run api (new_engine cfg now) evs)"
    by (rule budget_gone_limits)
  from b show "requests (run api (new_engine cfg now) evs) = []"
    "inflight (run api (new_engine cfg now) evs) = []"
    "delayed (run api (new_engine cfg now) evs) = []"
    "dataUsed (run api (new_engine cfg now) evs) = Num 0"
    by (simp_all add: budget_gone_def)
qed

theorem zero_data_limit_witness:
  "\<not> withinDataLimits (new_engine zero_limit 0)
   \<and> \<not> withinDataLimits (run toy_api (new_engine zero_limit 0)
          [Start plain_browser hint_page hint_page, ProcessQueue])
   \<and> requests (run toy_api (new_engine zero_limit 0)
          [Start plain_browser hint_page hint_page, ProcessQueue]) = []
   \<and> inflight (run toy_api (new_engine zero_limit 0)
          [Start plain_browser hint_page hint_page, ProcessQueue]) = []"
proof -
  have "dataLimit zero_limit = 0" "connectionAware zero_limit"
    by (simp_all add: zero_limit_def example_config_def)
  then show ?thesis
    using zero_data_limit [of zero_limit 0 toy_api "[Start plain_browser hint_page hint_page, ProcessQueue]"]
    by simp
qed

text \<open>
  The claim as first stated fails without \<open>connectionAware\<close>: the limit is then never
  consulted, and \<open>start()\<close> dispatches the first link, whose request is made. And with
  \<open>dataUsed = 0\<close> and \<open>dataLimit = 0\<close> the quotient in \<open>getStats()\<close> is \<open>0 / 0\<close>, which
  prints as \<open>NaN%\<close>.
\<close>

theorem zero_data_limit_counterexample:
  "dataLimit zero_limit_unaware = 0
   \<and> requests (run toy_api (new_engine zero_limit_unaware 0)
        [Start plain_browser hint_page hint_page, Settled 0 late_env]) = [Some ''/b'']
   \<and> dataUsagePercent (getStats (new_engine zero_limit 0) 7) = ''NaN%''
   \<and> dataUsagePercent (getStats (new_engine zero_limit 0) 7) \<noteq> ''0.00%''"
  by (simp add: start_def plain_browser_def processSSRHints_def meta_step_def
      buildQueue_def link_item_def hint_page_def new_engine_def example_config_def toy_api_def
      normalizeUrl_def shouldExclude_def shouldPreload_def withinDataLimits_def visible_link_def
      getEffectiveMaxConcurrent_def processQueue.simps Let_def zero_limit_unaware_def
      zero_limit_def settle_def fetchAndCache_def getCachedResponse_def late_env_def
      page_response_def on_ok_response_def storeInCache_def enforceCacheLimit_def
      broadcastCacheUpdate_def on_finally_def map_set_def getStats_def js_div_def)

section \<open>Helper lemmas for running the drain on concrete states\<close>

lemma cap_paused [simp]:
  "getEffectiveMaxConcurrent (s\<lparr> isPaused := b \<rparr>) = getEffectiveMaxConcurrent s"
  by (simp add: getEffectiveMaxConcurrent_def cong: option.case_cong if_cong)

lemma within_paused [simp]: "withinDataLimits (s\<lparr> isPaused := b \<rparr>) = withinDataLimits s"
  by (simp add: withinDataLimits_def cong: option.case_cong if_cong)

lemma processQueue_paused: "processQueue (s\<lparr> isPaused := b \<rparr>) = (processQueue s)\<lparr> isPaused := b \<rparr>"
proof (induction s rule: processQueue.induct)
  case (1 s)
  let ?p = "s\<lparr> isPaused := b \<rparr>"
  show ?case
  proof (cases "queue s")
    case Nil
    then show ?thesis
      by (simp add: processQueue.simps [of s] processQueue.simps [of ?p])
  next
    case (Cons item rest)
    note q = Cons
    show ?thesis
    proof (cases "activeRequests s < getEffectiveMaxConcurrent s")
      case False
      with q show ?thesis
        by (simp add: processQueue.simps [of s] processQueue.simps [of ?p])
    next
      case cap: True
      show ?thesis
      proof (cases "url item \<in> processing s \<or> url item \<in> processed s")
        case True
        have a: "processQueue s = processQueue (s\<lparr> queue := rest \<rparr>)"
          using q cap True by (simp add: processQueue.simps [of s])
        have b: "processQueue ?p = processQueue (?p\<lparr> queue := rest \<rparr>)"
          using q cap True by (simp add: processQueue.simps [of ?p])
        have sw: "?p\<lparr> queue := rest \<rparr> = s\<lparr> queue := rest \<rparr>\<lparr> isPaused := b \<rparr>"
          by simp
        have "processQueue (s\<lparr> queue := rest \<rparr>\<lparr> isPaused := b \<rparr>)
                = (processQueue (s\<lparr> queue := rest \<rparr>))\<lparr> isPaused := b \<rparr>"
          using "1.IH"(1) [OF q cap refl] True by simp
        with a b sw show ?thesis by (simp only:)
      next
        case new: False
        show ?thesis
        proof (cases "connectionAware (config s) \<and> \<not> withinDataLimits s")
          case True
          have "processQueue s = s\<lparr> queue := rest \<rparr>"
            using q cap new True by (simp add: processQueue.simps [of s])
          moreover have "processQueue ?p = ?p\<lparr> queue := rest \<rparr>"
            using q cap new True by (simp add: processQueue.simps [of ?p])
          ultimately show ?thesis by simp
        next
          case lim: False
          show ?thesis
          proof (cases "betweenDelay (config s) > 0 \<and> activeRequests s + 1 > 1")
            case True
            have "processQueue s = s\<lparr> queue := rest, processing := insert (url item) (processing s),
                           activeRequests := activeRequests s + 1,
                           delayed := delayed s @ [item] \<rparr>"
              using q cap new lim True by (auto simp: processQueue.simps [of s] Let_def)
            moreover have "processQueue ?p =
                    ?p\<lparr> queue := rest, processing := insert (url item) (processing s),
                           activeRequests := activeRequests s + 1,
                           delayed := delayed s @ [item] \<rparr>"
              using q cap new lim True by (auto simp: processQueue.simps [of ?p] Let_def)
            ultimately show ?thesis by simp
          next
            case False
            let ?s3 = "s\<lparr> queue := rest, processing := insert (url item) (processing s),
                           activeRequests := activeRequests s + 1,
                           inflight := inflight s @ [item] \<rparr>"
            have a: "processQueue s = processQueue ?s3"
              using q cap new lim False by (auto simp: processQueue.simps [of s] Let_def)
            have b': "processQueue ?p =
                processQueue (?p\<lparr> queue := rest, processing := insert (url item) (processing s),
                           activeRequests := activeRequests s + 1,
                           inflight := inflight s @ [item] \<rparr>)"
              using q cap new lim False by (auto simp: processQueue.simps [of ?p] Let_def)
            have sw: "?p\<lparr> queue := rest, processing := insert (url item) (processing s),
                           activeRequests := activeRequests s + 1,
                           inflight := inflight s @ [item] \<rparr> = ?s3\<lparr> isPaused := b \<rparr>"
              by simp
            have b: "processQueue ?p = processQueue (?s3\<lparr> isPaused := b \<rparr>)"
              using b' sw by (simp only:)
            let ?s2 = "s\<lparr> queue := rest \<rparr>\<lparr> processing := insert (url item) (processing (s\<lparr> queue := rest \<rparr>)),
                              activeRequests := activeRequests (s\<lparr> queue := rest \<rparr>) + 1 \<rparr>"
            have "processQueue (?s2\<lparr> inflight := inflight ?s2 @ [item] \<rparr>\<lparr> isPaused := b \<rparr>)
                    = (processQueue (?s2\<lparr> inflight := inflight ?s2 @ [item] \<rparr>))\<lparr> isPaused := b \<rparr>"
              using new lim False by (intro "1.IH"(2) [OF q cap refl _ _ refl]) auto
            then have "processQueue (?s3\<lparr> isPaused := b \<rparr>) = (processQueue ?s3)\<lparr> isPaused := b \<rparr>"
              by simp
            with a b show ?thesis by (simp only:)
          qed
        qed
      qed
    qed
  qed
qed

lemma fetch_error:
  assumes "getCachedResponse s (url item) = None" "net env = NetError"
  shows "fetchAndCache s item env =
           s\<lparr> stats := (stats s)\<lparr> totalRequests := totalRequests (stats s) + 1 \<rparr>,
              requests := requests s @ [url item] \<rparr>"
proof -
  let ?s1 = "s\<lparr> stats := (stats s)\<lparr> totalRequests := totalRequests (stats s) + 1 \<rparr> \<rparr>"
  have g: "getCachedResponse ?s1 (url item) = None"
    using assms(1) by (simp add: getCachedResponse_def cong: option.case_cong)
  show ?thesis
    unfolding fetchAndCache_def Let_def g using assms(2) by simp
qed

lemma two_queued_fields:
  "queue two_queued = [dom_item ''/a'' 10, dom_item ''/b'' 20]"
  "activeRequests two_queued = 0" "processing two_queued = {}" "processed two_queued = {}"
  "cache two_queued = []" "cacheAPI two_queued = None" "inflight two_queued = []"
  "delayed two_queued = []" "timers two_queued = 0" "requests two_queued = []"
  "isPaused two_queued = False"
  by (simp_all add: two_queued_def new_engine_def)

lemma two_queued_cap: "getEffectiveMaxConcurrent two_queued = 1"
  by (simp add: two_queued_def new_engine_def getEffectiveMaxConcurrent_def example_config_def)

lemma two_queued_within: "withinDataLimits two_queued"
  by (simp add: two_queued_def new_engine_def withinDataLimits_def example_config_def)

lemma two_queued_delay: "betweenDelay (config two_queued) = 100"
  by (simp add: two_queued_def new_engine_def example_config_def)

lemma dom_item_url [simp]: "url (dom_item u p) = Some u"
  by (simp add: dom_item_def)

lemma pq_stop:
  "queue s = [] \<or> \<not> activeRequests s < getEffectiveMaxConcurrent s \<Longrightarrow> processQueue s = s"
  by (cases "queue s") (auto simp: processQueue.simps [of s])

lemma pq_skip:
  "queue s = item # rest \<Longrightarrow> activeRequests s < getEffectiveMaxConcurrent s \<Longrightarrow>
   url item \<in> processing s \<or> url item \<in> processed s \<Longrightarrow>
   processQueue s = processQueue (s\<lparr> queue := rest \<rparr>)"
  by (simp add: processQueue.simps [of s])

lemma pq_break:
  "queue s = item # rest \<Longrightarrow> activeRequests s < getEffectiveMaxConcurrent s \<Longrightarrow>
   url item \<notin> processing s \<Longrightarrow> url item \<notin> processed s \<Longrightarrow>
   connectionAware (config s) \<Longrightarrow> \<not> withinDataLimits s \<Longrightarrow>
   processQueue s = s\<lparr> queue := rest \<rparr>"
  by (simp add: processQueue.simps [of s])

lemma pq_wait:
  "queue s = item # rest \<Longrightarrow> activeRequests s < getEffectiveMaxConcurrent s \<Longrightarrow>
   url item \<notin> processing s \<Longrightarrow> url item \<notin> processed s \<Longrightarrow>
   connectionAware (config s) \<longrightarrow> withinDataLimits s \<Longrightarrow>
   betweenDelay (config s) > 0 \<Longrightarrow> activeRequests s > 0 \<Longrightarrow>
   processQueue s = s\<lparr> queue := rest, processing := insert (url item) (processing s),
                          activeRequests := activeRequests s + 1,
                          delayed := delayed s @ [item] \<rparr>"
  by (auto simp: processQueue.simps [of s] Let_def)

lemma pq_fetch:
  "queue s = item # rest \<Longrightarrow> activeRequests s < getEffectiveMaxConcurrent s \<Longrightarrow>
   url item \<notin> processing s \<Longrightarrow> url item \<notin> processed s \<Longrightarrow>
   connectionAware (config s) \<longrightarrow> withinDataLimits s \<Longrightarrow>
   \<not> (betweenDelay (config s) > 0 \<and> activeRequests s > 0) \<Longrightarrow>
   s' = s\<lparr> queue := rest, processing := insert (url item) (processing s),
            activeRequests := activeRequests s + 1, inflight := inflight s @ [item] \<rparr> \<Longrightarrow>
   processQueue s = processQueue s'"
  by (auto simp: processQueue.simps [of s] Let_def)

lemma timer_fires_eq:
  "timers s > 0 \<Longrightarrow> s' = s\<lparr> timers := timers s - 1 \<rparr> \<Longrightarrow> timer_fires s = processQueue s'"
  by (simp add: timer_fires_def)

lemma no_net: "net offline_env = NetError"
  by (simp add: offline_env_def)

lemma miss_empty: "cache s = [] \<Longrightarrow> cacheAPI s = None \<Longrightarrow> getCachedResponse s u = None"
  by (simp add: getCachedResponse_def)

lemma paused_run_1:
  "processQueue two_queued =
     two_queued\<lparr> queue := [dom_item ''/b'' 20], processing := {Some ''/a''},
                  activeRequests := 1, inflight := [dom_item ''/a'' 10] \<rparr>"
proof -
  let ?s = "two_queued\<lparr> queue := [dom_item ''/b'' 20], processing := {Some ''/a''},
                  activeRequests := 1, inflight := [dom_item ''/a'' 10] \<rparr>"
  have "processQueue two_queued = processQueue ?s"
    by (rule pq_fetch [where item = "dom_item ''/a'' 10" and rest = "[dom_item ''/b'' 20]"])
      (simp_all add: two_queued_fields two_queued_cap two_queued_within)
  moreover have "getEffectiveMaxConcurrent ?s = getEffectiveMaxConcurrent two_queued"
    by (rule cap_cong) simp_all
  then have "processQueue ?s = ?s"
    by (intro pq_stop) (simp add: two_queued_cap)
  ultimately show ?thesis by simp
qed

lemma paused_run_3:
  "settle (pause (processQueue two_queued)) 0 offline_env =
     two_queued\<lparr> queue := [dom_item ''/b'' 20], processing := {}, processed := {Some ''/a''},
                  activeRequests := 0, isPaused := True,
                  stats := (stats two_queued)\<lparr> totalRequests := totalRequests (stats two_queued) + 1 \<rparr>,
                  inflight := [], timers := 1, requests := [Some ''/a''] \<rparr>"
  unfolding paused_run_1
  by (simp add: settle_def pause_def Let_def on_finally_def two_queued_fields
      fetch_error no_net miss_empty)

lemma paused_run_4:
  "timer_fires (settle (pause (processQueue two_queued)) 0 offline_env) =
     two_queued\<lparr> queue := [], processing := {Some ''/b''}, processed := {Some ''/a''},
                  activeRequests := 1, isPaused := True,
                  stats := (stats two_queued)\<lparr> totalRequests := totalRequests (stats two_queued) + 1 \<rparr>,
                  inflight := [dom_item ''/b'' 20], timers := 0, requests := [Some ''/a''] \<rparr>"
proof -
  let ?t3 = "two_queued\<lparr> queue := [dom_item ''/b'' 20], processing := {}, processed := {Some ''/a''},
                  activeRequests := 0, isPaused := True,
                  stats := (stats two_queued)\<lparr> totalRequests := totalRequests (stats two_queued) + 1 \<rparr>,
                  inflight := [], timers := 1, requests := [Some ''/a''] \<rparr>"
  let ?t = "two_queued\<lparr> queue := [dom_item ''/b'' 20], processing := {}, processed := {Some ''/a''},
                  activeRequests := 0, isPaused := True,
                  stats := (stats two_queued)\<lparr> totalRequests := totalRequests (stats two_queued) + 1 \<rparr>,
                  inflight := [], timers := 0, requests := [Some ''/a''] \<rparr>"
  let ?u = "two_queued\<lparr> queue := [], processing := {Some ''/b''}, processed := {Some ''/a''},
                  activeRequests := 1, isPaused := True,
                  stats := (stats two_queued)\<lparr> totalRequests := totalRequests (stats two_queued) + 1 \<rparr>,
                  inflight := [dom_item ''/b'' 20], timers := 0, requests := [Some ''/a''] \<rparr>"
  have c: "getEffectiveMaxConcurrent ?t = getEffectiveMaxConcurrent two_queued"
    by (rule cap_cong) simp_all
  have w: "withinDataLimits ?t = withinDataLimits two_queued"
    by (rule within_cong) simp_all
  have cu: "getEffectiveMaxConcurrent ?u = getEffectiveMaxConcurrent two_queued"
    by (rule cap_cong) simp_all
  have "timer_fires ?t3 = processQueue ?t"
    by (rule timer_fires_eq) simp_all
  also have "processQueue ?t = processQueue ?u"
    by (rule pq_fetch [where item = "dom_item ''/b'' 20" and rest = "[]"])
      (simp_all add: c w two_queued_cap two_queued_within)
  also have "processQueue ?u = ?u"
    by (rule pq_stop) simp
  finally show ?thesis
    unfolding paused_run_3 .
qed

text \<open>
  Claim C7. The code does not keep what the claim states. \<open>pause()\<close> sets \<open>isPaused\<close>,
  and nothing reads the flag: \<open>processQueue\<close> runs the same with it set
  (\<open>processQueue_paused\<close>). With two items queued and one request admitted at a time:
  the first item is fetched, \<open>pause()\<close> is called, the first request settles (with a
  network error), its \<open>finally\<close> callback sets the drain timer, the timer fires and the
  second item is fetched while the flag is set; in the end both URLs were handed to
  \<open>fetch\<close>.
\<close>

theorem dispatched_while_paused:
  "isPaused (run toy_api two_queued [ProcessQueue, Pause, Settled 0 offline_env, TimerFired])
   \<and> map url (inflight (run toy_api two_queued [ProcessQueue, Pause, Settled 0 offline_env, TimerFired]))
       = [Some ''/b'']
   \<and> isPaused (run toy_api two_queued
        [ProcessQueue, Pause, Settled 0 offline_env, TimerFired, Settled 0 offline_env])
   \<and> requests (run toy_api two_queued
        [ProcessQueue, Pause, Settled 0 offline_env, TimerFired, Settled 0 offline_env])
       = [Some ''/a'', Some ''/b'']"
proof -
  have 1: "run toy_api two_queued [ProcessQueue, Pause, Settled 0 offline_env, TimerFired]
        = timer_fires (settle (pause (processQueue two_queued)) 0 offline_env)"
    by simp
  have 2: "run toy_api two_queued
          [ProcessQueue, Pause, Settled 0 offline_env, TimerFired, Settled 0 offline_env]
        = settle (timer_fires (settle (pause (processQueue two_queued)) 0 offline_env)) 0 offline_env"
    by simp
  show ?thesis
    unfolding 1 2 paused_run_4
    by (simp add: settle_def Let_def on_finally_def two_queued_fields fetch_error no_net miss_empty)
qed

lemma buildQueue_ignores_queue: "buildQueue api (s\<lparr> queue := q \<rparr>) pg = buildQueue api s pg"
proof -
  have "link_item api (s\<lparr> queue := q \<rparr>) pg = link_item api s pg"
    by (rule ext) (simp add: link_item_def cong: option.case_cong if_cong)
  then show ?thesis
    by (simp add: buildQueue_def)
qed

text \<open>
  Claim C1. The code does not keep what the claim states. \<open>processSSRHints\<close> puts the
  item of a high-priority meta hint at the head of the queue, but \<open>buildQueue\<close> assigns
  the sorted list of the link items to \<open>this.queue\<close>, whatever the queue held
  (\<open>buildQueue_ignores_queue\<close>). With a hint for \<open>/a\<close> and two visible links \<open>/b\<close> and
  \<open>/c\<close>: after the hints the queue is \<open>[/a]\<close>; after the queue build it is
  \<open>[/b, /c]\<close>; and after \<open>start()\<close> the two links have been started and \<open>/a\<close> is
  neither queued, nor waiting, nor in flight.
\<close>

theorem hint_lost_at_startup:
  "map url (queue (processSSRHints toy_api (new_engine example_config 0) hint_page)) = [Some ''/a'']
   \<and> map url (queue (buildQueue toy_api
          (processSSRHints toy_api (new_engine example_config 0) hint_page) hint_page))
       = [Some ''/b'', Some ''/c'']
   \<and> queue (start toy_api (new_engine example_config 0) plain_browser hint_page hint_page) = []
   \<and> map url (inflight (start toy_api (new_engine example_config 0) plain_browser hint_page hint_page))
       = [Some ''/b'']
   \<and> map url (delayed (start toy_api (new_engine example_config 0) plain_browser hint_page hint_page))
       = [Some ''/c'']
   \<and> processing (start toy_api (new_engine example_config 0) plain_browser hint_page hint_page)
       = {Some ''/b'', Some ''/c''}"
  by (simp add: start_def plain_browser_def detectConnection_def processSSRHints_def meta_step_def
      buildQueue_def link_item_def hint_page_def new_engine_def example_config_def toy_api_def
      normalizeUrl_def shouldExclude_def shouldPreload_def withinDataLimits_def visible_link_def
      getEffectiveMaxConcurrent_def processQueue.simps Let_def insert_commute)

section \<open>Helper lemmas on processed URLs\<close>
























section \<open>Processed URLs are not fetched again\<close>




end
